theory Spec2Isabelle
  imports Main "HOL-Library.Word"
begin

section \<open>Epoch managers (epochs.h)\<close>

text \<open>
  The epoch table holds one unsigned machine word per thread; a thread stores the time
  at which it begins a step and stores \<open>-1\<close> when it ends it. The table is compared
  unsigned, so \<open>-1\<close> is the largest value. Thread ids, the id generator and loop
  indices are modelled as \<open>nat\<close>: the constructor terminates the process as soon as an
  id reaches \<open>MAXTHREADS\<close> (an \<open>int\<close> template parameter), so the 64-bit counter can
  never wrap. Times, epoch slots and the token are 64-bit words.
\<close>

type_synonym word64 = "64 word"

definition IDLE :: word64 where
  "IDLE = - 1"

record globals =
  idGenerator :: nat
  epochs :: "word64 list"
  token :: word64

text \<open>
  \<open>IrrevocQuiesceEpochManager::Globals()\<close>: the base constructor zeroes the generator
  and fills the \<open>MAXTHREADS\<close> slots with \<open>-1\<close>; the derived one zeroes the token.
\<close>

definition new_Globals :: "nat \<Rightarrow> globals" where
  "new_Globals MAXTHREADS = \<lparr>idGenerator = 0, epochs = replicate MAXTHREADS IDLE, token = 0\<rparr>"

definition getThreads :: "globals \<Rightarrow> nat" where
  "getThreads g = idGenerator g"

datatype fatal = Terminate

text \<open>
  \<open>BasicEpochManager(Globals &g) : id(g.idGenerator.val++)\<close>, then
  \<open>if (id >= MAXTHREADS) std::terminate()\<close>. The result is the id and the updated
  globals, or the fatal termination of the process.
\<close>

definition BasicEpochManager :: "nat \<Rightarrow> globals \<Rightarrow> fatal + (nat \<times> globals)" where
  "BasicEpochManager MAXTHREADS g =
     (let i = idGenerator g;
          g' = g\<lparr>idGenerator := idGenerator g + 1\<rparr>
      in if i \<ge> MAXTHREADS then Inl Terminate else Inr (i, g'))"

text \<open>Constructing \<open>k\<close> managers one after the other on the same globals, collecting the ids.\<close>

fun construct_all :: "nat \<Rightarrow> nat \<Rightarrow> globals \<Rightarrow> fatal + (nat list \<times> globals)" where
  "construct_all MAXTHREADS 0 g = Inr ([], g)"
| "construct_all MAXTHREADS (Suc k) g =
     (case BasicEpochManager MAXTHREADS g of
        Inl e \<Rightarrow> Inl e
      | Inr (i, g') \<Rightarrow>
          (case construct_all MAXTHREADS k g' of
             Inl e \<Rightarrow> Inl e
           | Inr (is, g'') \<Rightarrow> Inr (i # is, g'')))"


subsection \<open>IrrevocQuiesceEpochManager, one atomic access at a time\<close>

text \<open>
  The methods of \<open>IrrevocQuiesceEpochManager\<close> run concurrently with the other threads,
  so each is modelled as a small machine: a program point for every access to a shared
  atomic (\<open>g.epochs[i].val\<close>, \<open>g.token.val\<close>, \<open>g.idGenerator.val\<close>) and for every
  write of the private field \<open>hasToken\<close>. One step of a thread executes the access at
  its program point on the current globals and moves to the next point. The program
  points are named after the method and follow the source line by line.
\<close>

datatype pc =
    Out "bool option"       \<comment> \<open>outside every method; the value the last call returned\<close>
  | IsIrrevoc_r             \<comment> \<open>\<open>isIrrevoc\<close>: \<open>return hasToken\<close>\<close>
  | ClearEpoch_w            \<comment> \<open>\<open>clearEpoch\<close>: \<open>g.epochs[id].val = -1\<close>\<close>
  | SetEpoch_w word64       \<comment> \<open>\<open>setEpoch\<close>: \<open>g.epochs[id].val = time\<close>\<close>
  | Begin_set word64        \<comment> \<open>\<open>onBegin\<close>: \<open>setEpoch(g, time)\<close>\<close>
  | Begin_check word64      \<comment> \<open>\<open>onBegin\<close>: \<open>if (!g.token.val) break\<close>\<close>
  | Begin_clear word64      \<comment> \<open>\<open>onBegin\<close>: \<open>clearEpoch(g)\<close>\<close>
  | Begin_spin word64       \<comment> \<open>\<open>onBegin\<close>: \<open>while (g.token.val) ;\<close>\<close>
  | Commit_clear            \<comment> \<open>\<open>onCommitIrrevoc\<close>: \<open>clearEpoch(g)\<close>\<close>
  | Commit_token            \<comment> \<open>\<open>onCommitIrrevoc\<close>: \<open>g.token.val = 0\<close>\<close>
  | Commit_flag             \<comment> \<open>\<open>onCommitIrrevoc\<close>: \<open>hasToken = false\<close>\<close>
  | Exist_read              \<comment> \<open>\<open>existIrrevoc\<close>: \<open>return g.token.val\<close>\<close>
  | Try_flag                \<comment> \<open>\<open>tryIrrevoc\<close>: \<open>if (hasToken) return true\<close>\<close>
  | Try_read                \<comment> \<open>\<open>tryIrrevoc\<close>: the read \<open>g.token.val\<close> of the condition\<close>
  | Try_cas                 \<comment> \<open>\<open>tryIrrevoc\<close>: \<open>g.token.val.compare_exchange_strong(oldval, 1)\<close>\<close>
  | Try_count               \<comment> \<open>\<open>tryIrrevoc\<close>: \<open>count = g.idGenerator.val\<close>\<close>
  | Try_loop nat nat        \<comment> \<open>\<open>tryIrrevoc\<close>: the \<open>for\<close> loop, with \<open>count\<close> and \<open>i\<close>\<close>
  | Try_mark                \<comment> \<open>\<open>tryIrrevoc\<close>: \<open>hasToken = true; return true\<close>\<close>
  | Q_count word64          \<comment> \<open>\<open>quiesce\<close>: \<open>count = g.idGenerator.val\<close>\<close>
  | Q_loop word64 nat nat   \<comment> \<open>\<open>quiesce\<close>: the \<open>for\<close> loop, with \<open>time\<close>, \<open>count\<close> and \<open>i\<close>\<close>
  | Fault                   \<comment> \<open>an access to \<open>g.epochs\<close> outside the array (undefined behaviour)\<close>
  | Abort                   \<comment> \<open>\<open>std::terminate()\<close> was called\<close>

text \<open>
  A thread's manager object: its \<open>id\<close> (field \<open>tid\<close>) and \<open>hasToken\<close>, with the
  program point. \<open>live\<close> is not a field of the class: it records the begin time of the
  step the thread is in (set when \<open>setEpoch\<close> or \<open>onBegin\<close> returns, reset when
  \<open>clearEpoch\<close> or \<open>onCommitIrrevoc\<close> returns), so that the epoch table can be
  compared with it.
\<close>

record thread =
  tid :: nat
  hasToken :: bool
  pc :: pc
  live :: "word64 option"

text \<open>The shared-memory access a step performs.\<close>

datatype action =
    Tau                     \<comment> \<open>no shared access\<close>
  | RdIdGen nat             \<comment> \<open>read \<open>g.idGenerator.val\<close>\<close>
  | RdEpoch nat word64      \<comment> \<open>read \<open>g.epochs[i].val\<close>, with the value read\<close>
  | WrEpoch nat word64      \<comment> \<open>store to \<open>g.epochs[i].val\<close>\<close>
  | RdToken word64          \<comment> \<open>read \<open>g.token.val\<close>, with the value read\<close>
  | WrToken word64          \<comment> \<open>store to \<open>g.token.val\<close>\<close>
  | CasToken bool           \<comment> \<open>\<open>compare_exchange_strong(0, 1)\<close> on the token, with its result\<close>
  | OutOfRange nat          \<comment> \<open>an index outside \<open>g.epochs\<close>\<close>

datatype meth =
    IsIrrevoc | ClearEpoch | SetEpoch word64 | OnBegin word64 | OnCommitIrrevoc
  | ExistIrrevoc | TryIrrevoc | Quiesce word64

definition enter :: "meth \<Rightarrow> pc" where
  "enter m = (case m of
      IsIrrevoc \<Rightarrow> IsIrrevoc_r
    | ClearEpoch \<Rightarrow> ClearEpoch_w
    | SetEpoch t \<Rightarrow> SetEpoch_w t
    | OnBegin t \<Rightarrow> Begin_set t
    | OnCommitIrrevoc \<Rightarrow> Commit_clear
    | ExistIrrevoc \<Rightarrow> Exist_read
    | TryIrrevoc \<Rightarrow> Try_flag
    | Quiesce t \<Rightarrow> Q_count t)"

text \<open>\<open>g.epochs[this->id].val = v\<close>, continuing at \<open>nxt\<close>.\<close>

definition store_epoch :: "thread \<Rightarrow> globals \<Rightarrow> word64 \<Rightarrow> pc \<Rightarrow> thread \<times> globals \<times> action" where
  "store_epoch th g v nxt =
     (if tid th < length (epochs g)
      then (th\<lparr>pc := nxt\<rparr>, g\<lparr>epochs := (epochs g)[tid th := v]\<rparr>, WrEpoch (tid th) v)
      else (th\<lparr>pc := Fault\<rparr>, g, OutOfRange (tid th)))"

definition tstep :: "thread \<Rightarrow> globals \<Rightarrow> thread \<times> globals \<times> action" where
  "tstep th g = (case pc th of
      Out r \<Rightarrow> (th, g, Tau)
    | Fault \<Rightarrow> (th, g, Tau)
    | Abort \<Rightarrow> (th, g, Tau)
    | IsIrrevoc_r \<Rightarrow> (th\<lparr>pc := Out (Some (hasToken th))\<rparr>, g, Tau)
    | ClearEpoch_w \<Rightarrow> store_epoch (th\<lparr>live := None\<rparr>) g IDLE (Out None)
    | SetEpoch_w t \<Rightarrow> store_epoch (th\<lparr>live := Some t\<rparr>) g t (Out None)
    | Begin_set t \<Rightarrow> store_epoch th g t (Begin_check t)
    | Begin_check t \<Rightarrow>
        (if token g = 0 then (th\<lparr>pc := Out None, live := Some t\<rparr>, g, RdToken (token g))
         else (th\<lparr>pc := Begin_clear t\<rparr>, g, RdToken (token g)))
    | Begin_clear t \<Rightarrow> store_epoch th g IDLE (Begin_spin t)
    | Begin_spin t \<Rightarrow>
        (if token g \<noteq> 0 then (th\<lparr>pc := Begin_spin t\<rparr>, g, RdToken (token g))
         else (th\<lparr>pc := Begin_set t\<rparr>, g, RdToken (token g)))
    | Commit_clear \<Rightarrow> store_epoch th g IDLE Commit_token
    | Commit_token \<Rightarrow> (th\<lparr>pc := Commit_flag\<rparr>, g\<lparr>token := 0\<rparr>, WrToken 0)
    | Commit_flag \<Rightarrow> (th\<lparr>hasToken := False, pc := Out None, live := None\<rparr>, g, Tau)
    | Exist_read \<Rightarrow> (th\<lparr>pc := Out (Some (token g \<noteq> 0))\<rparr>, g, RdToken (token g))
    | Try_flag \<Rightarrow>
        (if hasToken th then (th\<lparr>pc := Out (Some True)\<rparr>, g, Tau)
         else (th\<lparr>pc := Try_read\<rparr>, g, Tau))
    | Try_read \<Rightarrow>
        (if token g \<noteq> 0 then (th\<lparr>pc := Out (Some False)\<rparr>, g, RdToken (token g))
         else (th\<lparr>pc := Try_cas\<rparr>, g, RdToken (token g)))
    | Try_cas \<Rightarrow>
        (if token g = 0 then (th\<lparr>pc := Try_count\<rparr>, g\<lparr>token := 1\<rparr>, CasToken True)
         else (th\<lparr>pc := Out (Some False)\<rparr>, g, CasToken False))
    | Try_count \<Rightarrow> (th\<lparr>pc := Try_loop (idGenerator g) 0\<rparr>, g, RdIdGen (idGenerator g))
    | Try_loop count i \<Rightarrow>
        (if \<not> i < count then (th\<lparr>pc := Try_mark\<rparr>, g, Tau)
         else if i = tid th then (th\<lparr>pc := Try_loop count (i + 1)\<rparr>, g, Tau)
         else if \<not> i < length (epochs g) then (th\<lparr>pc := Fault\<rparr>, g, OutOfRange i)
         else if epochs g ! i \<noteq> IDLE then (th\<lparr>pc := Try_loop count i\<rparr>, g, RdEpoch i (epochs g ! i))
         else (th\<lparr>pc := Try_loop count (i + 1)\<rparr>, g, RdEpoch i (epochs g ! i)))
    | Try_mark \<Rightarrow> (th\<lparr>hasToken := True, pc := Out (Some True)\<rparr>, g, Tau)
    | Q_count time \<Rightarrow> (th\<lparr>pc := Q_loop time (idGenerator g) 0\<rparr>, g, RdIdGen (idGenerator g))
    | Q_loop time count i \<Rightarrow>
        (if \<not> i < count then (th\<lparr>pc := Out None\<rparr>, g, Tau)
         else if i = tid th then (th\<lparr>pc := Q_loop time count (i + 1)\<rparr>, g, Tau)
         else if \<not> i < length (epochs g) then (th\<lparr>pc := Fault\<rparr>, g, OutOfRange i)
         else if epochs g ! i < time then (th\<lparr>pc := Q_loop time count i\<rparr>, g, RdEpoch i (epochs g ! i))
         else (th\<lparr>pc := Q_loop time count (i + 1)\<rparr>, g, RdEpoch i (epochs g ! i))))"



subsection \<open>CCSTMEpochManager\<close>










subsection \<open>Sample states\<close>









subsection \<open>BasicEpochManager\<close>

text \<open>
  The methods of \<open>BasicEpochManager\<close>, on the same program points: \<open>clearEpoch\<close>,
  \<open>setEpoch\<close>, \<open>onBegin\<close> and \<open>quiesce\<close> have empty bodies, \<open>isIrrevoc\<close>,
  \<open>existIrrevoc\<close> and \<open>tryIrrevoc\<close> return false, and \<open>onCommitIrrevoc\<close> calls
  \<open>std::terminate()\<close>.
\<close>

definition bstep :: "thread \<Rightarrow> globals \<Rightarrow> thread \<times> globals \<times> action" where
  "bstep th g = (case pc th of
      IsIrrevoc_r \<Rightarrow> (th\<lparr>pc := Out (Some False)\<rparr>, g, Tau)
    | ClearEpoch_w \<Rightarrow> (th\<lparr>pc := Out None, live := None\<rparr>, g, Tau)
    | SetEpoch_w t \<Rightarrow> (th\<lparr>pc := Out None, live := Some t\<rparr>, g, Tau)
    | Begin_set t \<Rightarrow> (th\<lparr>pc := Out None, live := Some t\<rparr>, g, Tau)
    | Commit_clear \<Rightarrow> (th\<lparr>pc := Abort\<rparr>, g, Tau)
    | Q_count t \<Rightarrow> (th\<lparr>pc := Out None\<rparr>, g, Tau)
    | Exist_read \<Rightarrow> (th\<lparr>pc := Out (Some False)\<rparr>, g, Tau)
    | Try_flag \<Rightarrow> (th\<lparr>pc := Out (Some False)\<rparr>, g, Tau)
    | _ \<Rightarrow> (th, g, Tau))"

subsection \<open>The threads together\<close>

text \<open>
  The process: the globals, the managers constructed so far (thread \<open>p\<close> is the \<open>p\<close>-th
  one constructed) and whether \<open>std::terminate\<close> was called. An event constructs a
  manager for a new thread, lets a thread that is outside every method call one, or lets
  a thread inside a method take its next step. The constructor increments the counter
  before it compares the id with \<open>MAXTHREADS\<close>, so the counter is incremented also when
  the process terminates. \<open>stp\<close> is the step function of the
  manager class in use (\<open>tstep\<close> or \<open>bstep\<close>).
\<close>

record config =
  glob :: globals
  threads :: "thread list"
  dead :: bool

datatype event = Construct | Call nat meth | Step nat

definition init :: "nat \<Rightarrow> config" where
  "init MAXTHREADS = \<lparr>glob = new_Globals MAXTHREADS, threads = [], dead = False\<rparr>"

fun is_Out :: "pc \<Rightarrow> bool" where
  "is_Out (Out r) = True"
| "is_Out _ = False"

definition new_thread :: "nat \<Rightarrow> thread" where
  "new_thread i = \<lparr>tid = i, hasToken = False, pc = Out None, live = None\<rparr>"

definition sys_step ::
  "(thread \<Rightarrow> globals \<Rightarrow> thread \<times> globals \<times> action) \<Rightarrow> nat \<Rightarrow> config \<Rightarrow> event \<Rightarrow> config option" where
  "sys_step stp MAXTHREADS c ev =
     (if dead c then None
      else case ev of
        Construct \<Rightarrow>
          (case BasicEpochManager MAXTHREADS (glob c) of
             Inl e \<Rightarrow>
               Some (c\<lparr>glob := (glob c)\<lparr>idGenerator := idGenerator (glob c) + 1\<rparr>, dead := True\<rparr>)
           | Inr (i, g') \<Rightarrow> Some (c\<lparr>glob := g', threads := threads c @ [new_thread i]\<rparr>))
      | Call p m \<Rightarrow>
          (if p < length (threads c) \<and> is_Out (pc (threads c ! p))
           then Some (c\<lparr>threads := (threads c)[p := (threads c ! p)\<lparr>pc := enter m\<rparr>]\<rparr>)
           else None)
      | Step p \<Rightarrow>
          (if p < length (threads c) \<and> \<not> is_Out (pc (threads c ! p))
           then (case stp (threads c ! p) (glob c) of
                   (th', g', a) \<Rightarrow>
                     Some \<lparr>glob = g', threads = (threads c)[p := th'], dead = (pc th' = Abort)\<rparr>)
           else None))"

fun exec ::
  "(thread \<Rightarrow> globals \<Rightarrow> thread \<times> globals \<times> action) \<Rightarrow> nat \<Rightarrow> config \<Rightarrow> event list \<Rightarrow> config option" where
  "exec stp M c [] = Some c"
| "exec stp M c (e # es) =
     (case sys_step stp M c e of None \<Rightarrow> None | Some c' \<Rightarrow> exec stp M c' es)"

text \<open>
  Calls one after the other: thread \<open>p\<close> calls a method and runs alone until the method
  returns, for at most \<open>n\<close> steps (a call that has not returned by then is \<open>None\<close>).
\<close>

fun run_thread ::
  "(thread \<Rightarrow> globals \<Rightarrow> thread \<times> globals \<times> action) \<Rightarrow> nat \<Rightarrow> nat \<Rightarrow> nat \<Rightarrow> config \<Rightarrow> config option" where
  "run_thread stp M 0 p c = (if is_Out (pc (threads c ! p)) then Some c else None)"
| "run_thread stp M (Suc n) p c =
     (if is_Out (pc (threads c ! p)) then Some c
      else case sys_step stp M c (Step p) of None \<Rightarrow> None | Some c' \<Rightarrow> run_thread stp M n p c')"

definition do_call ::
  "(thread \<Rightarrow> globals \<Rightarrow> thread \<times> globals \<times> action) \<Rightarrow> nat \<Rightarrow> nat \<Rightarrow> config \<Rightarrow> event \<Rightarrow> config option" where
  "do_call stp M n c ev = (case ev of
      Construct \<Rightarrow> sys_step stp M c Construct
    | Call p m \<Rightarrow>
        (case sys_step stp M c (Call p m) of None \<Rightarrow> None | Some c' \<Rightarrow> run_thread stp M n p c')
    | Step p \<Rightarrow> None)"

fun exec_calls ::
  "(thread \<Rightarrow> globals \<Rightarrow> thread \<times> globals \<times> action) \<Rightarrow> nat \<Rightarrow> nat \<Rightarrow> config \<Rightarrow> event list \<Rightarrow> config option" where
  "exec_calls stp M n c [] = Some c"
| "exec_calls stp M n c (e # es) =
     (case do_call stp M n c e of None \<Rightarrow> None | Some c' \<Rightarrow> exec_calls stp M n c' es)"

text \<open>
  Along an interleaved execution, \<open>onCommitIrrevoc\<close> is only called by a thread whose
  \<open>hasToken\<close> is set at the moment of the call.
\<close>

fun commit_by_holder :: "config \<Rightarrow> event \<Rightarrow> bool" where
  "commit_by_holder c (Call p OnCommitIrrevoc) = (p < length (threads c) \<and> hasToken (threads c ! p))"
| "commit_by_holder c _ = True"

fun holder_commits ::
  "(thread \<Rightarrow> globals \<Rightarrow> thread \<times> globals \<times> action) \<Rightarrow> nat \<Rightarrow> config \<Rightarrow> event list \<Rightarrow> bool" where
  "holder_commits stp M c [] = True"
| "holder_commits stp M c (e # es) =
     (commit_by_holder c e \<and>
      (case sys_step stp M c e of None \<Rightarrow> True | Some c' \<Rightarrow> holder_commits stp M c' es))"

text \<open>
  A thread has the token from its successful compare-and-swap in \<open>tryIrrevoc\<close> until its
  store of 0 in \<open>onCommitIrrevoc\<close>: after the compare-and-swap it is at the program
  points of the wait loop and of \<open>hasToken = true\<close>, then \<open>hasToken\<close> is set; after the
  store of 0 it is at \<open>hasToken = false\<close>, where the field is still set but the token is
  already free.
\<close>

fun owning_pc :: "pc \<Rightarrow> bool" where
  "owning_pc Try_count = True"
| "owning_pc (Try_loop c i) = True"
| "owning_pc Try_mark = True"
| "owning_pc _ = False"

definition owns :: "thread \<Rightarrow> bool" where
  "owns th \<longleftrightarrow> (hasToken th \<and> pc th \<noteq> Commit_flag) \<or> owning_pc (pc th)"

text \<open>
  What a thread's own slot holds, as far as the thread's program point determines it:
  outside the methods that write the slot it is the begin time of the live step, or idle.
\<close>

definition live_slot :: "thread \<Rightarrow> word64" where
  "live_slot th = (case live th of None \<Rightarrow> IDLE | Some t \<Rightarrow> t)"

fun slot_known :: "thread \<Rightarrow> pc \<Rightarrow> word64 option" where
  "slot_known th ClearEpoch_w = None"
| "slot_known th (SetEpoch_w t) = None"
| "slot_known th (Begin_set t) = None"
| "slot_known th (Begin_check t) = Some t"
| "slot_known th (Begin_clear t) = Some t"
| "slot_known th (Begin_spin t) = Some IDLE"
| "slot_known th Commit_clear = None"
| "slot_known th Commit_token = Some IDLE"
| "slot_known th Commit_flag = Some IDLE"
| "slot_known th Fault = None"
| "slot_known th Abort = None"
| "slot_known th _ = Some (live_slot th)"

subsection \<open>The token has one owner\<close>

definition commit_pc :: "pc \<Rightarrow> bool" where
  "commit_pc q \<longleftrightarrow> q = Commit_clear \<or> q = Commit_token"

definition token_inv :: "word64 \<Rightarrow> thread list \<Rightarrow> bool" where
  "token_inv tok ths \<longleftrightarrow>
     (\<forall>p < length ths. owns (ths ! p) \<longrightarrow> tok \<noteq> 0) \<and>
     (\<forall>p < length ths. \<forall>q < length ths. owns (ths ! p) \<longrightarrow> owns (ths ! q) \<longrightarrow> p = q) \<and>
     (\<forall>p < length ths. commit_pc (pc (ths ! p)) \<longrightarrow> hasToken (ths ! p))"

definition CX2 :: config where
  "CX2 = \<lparr>glob = \<lparr>idGenerator = 2, epochs = [IDLE, IDLE], token = 1\<rparr>,
          threads = [\<lparr>tid = 0, hasToken = True, pc = Out (Some True), live = None\<rparr>,
                     \<lparr>tid = 1, hasToken = True, pc = Out (Some True), live = None\<rparr>],
          dead = False\<rparr>"

definition CR2 :: config where
  "CR2 = \<lparr>glob = \<lparr>idGenerator = 2, epochs = [IDLE, IDLE], token = 1\<rparr>,
          threads = [\<lparr>tid = 0, hasToken = False, pc = Try_count, live = None\<rparr>,
                     \<lparr>tid = 1, hasToken = False, pc = Try_cas, live = None\<rparr>],
          dead = False\<rparr>"

definition CL2 :: config where
  "CL2 = \<lparr>glob = \<lparr>idGenerator = 2, epochs = [IDLE, IDLE], token = 1\<rparr>,
          threads = [\<lparr>tid = 0, hasToken = True, pc = Commit_flag, live = None\<rparr>,
                     \<lparr>tid = 1, hasToken = True, pc = Out (Some True), live = None\<rparr>],
          dead = False\<rparr>"

text \<open>
  The events of a call that runs alone: thread 0 takes the token by \<open>tryIrrevoc\<close> when two
  threads are registered and both slots are idle (\<open>irrevoc0\<close>), the same for thread 1
  (\<open>irrevoc1\<close>), and \<open>onCommitIrrevoc\<close> by thread 1 (\<open>commit1\<close>).
\<close>

definition irrevoc0 :: "event list" where
  "irrevoc0 = [Call 0 TryIrrevoc, Step 0, Step 0, Step 0, Step 0, Step 0, Step 0, Step 0, Step 0]"

definition irrevoc1 :: "event list" where
  "irrevoc1 = [Call 1 TryIrrevoc, Step 1, Step 1, Step 1, Step 1, Step 1, Step 1, Step 1, Step 1]"

definition commit1 :: "event list" where
  "commit1 = [Call 1 OnCommitIrrevoc, Step 1, Step 1, Step 1]"

subsection \<open>Every thread writes its own slot only\<close>

definition slot_ok :: "word64 list \<Rightarrow> thread \<Rightarrow> bool" where
  "slot_ok es th \<longleftrightarrow> (\<forall>v. slot_known th (pc th) = Some v \<longrightarrow> es ! tid th = v)"

definition slot_inv :: "nat \<Rightarrow> config \<Rightarrow> bool" where
  "slot_inv M c \<longleftrightarrow>
     length (epochs (glob c)) = M \<and>
     (\<not> dead c \<longrightarrow> idGenerator (glob c) = length (threads c)) \<and>
     length (threads c) \<le> M \<and>
     (\<forall>p < length (threads c). tid (threads c ! p) = p \<and> slot_ok (epochs (glob c)) (threads c ! p)) \<and>
     (\<forall>i. length (threads c) \<le> i \<longrightarrow> i < M \<longrightarrow> epochs (glob c) ! i = IDLE)"

fun in_onBegin :: "pc \<Rightarrow> bool" where
  "in_onBegin (Begin_set t) = True"
| "in_onBegin (Begin_check t) = True"
| "in_onBegin (Begin_clear t) = True"
| "in_onBegin (Begin_spin t) = True"
| "in_onBegin _ = False"

definition CW3 :: config where
  "CW3 = \<lparr>glob = \<lparr>idGenerator = 2, epochs = [IDLE, 5], token = 1\<rparr>,
          threads = [\<lparr>tid = 0, hasToken = False, pc = Try_count, live = None\<rparr>,
                     \<lparr>tid = 1, hasToken = False, pc = Begin_check 5, live = None\<rparr>],
          dead = False\<rparr>"

definition CXB :: config where
  "CXB = \<lparr>glob = \<lparr>idGenerator = 1, epochs = [IDLE], token = 0\<rparr>,
          threads = [\<lparr>tid = 0, hasToken = False, pc = Out None, live = Some 5\<rparr>],
          dead = False\<rparr>"

definition CW5 :: config where
  "CW5 = \<lparr>glob = \<lparr>idGenerator = 1, epochs = [5], token = 0\<rparr>,
          threads = [\<lparr>tid = 0, hasToken = False, pc = Out None, live = Some 5\<rparr>],
          dead = False\<rparr>"

section \<open>Steps and ownership records\<close>

text \<open>
  \<open>Step\<close>, \<open>RStep\<close> and \<open>WStep\<close> wrap a thread descriptor and forward every call to its
  members \<open>exo\<close> and \<open>smr\<close>. The classes of these two members are not among the sources at
  hand. The wrappers are modelled with the member functions as parameters; the members
  themselves are modelled from the specification, each marked as such.
\<close>

text \<open>
  Modelled from the spec: the ownership record, missing with the class of \<open>exo\<close>. An orec is
  a version and a lock-owner marker; a sentinel \<open>END_OF_TIME\<close> stands for an orec that
  cannot be used.
\<close>

record orec_t =
  version :: word64
  owner :: "nat option"

definition END_OF_TIME :: word64 where
  "END_OF_TIME = - 1"

text \<open>
  Modelled from the spec: \<open>check\<close> returns the current version if the orec is unlocked and
  \<open>END_OF_TIME\<close> if it is locked by anyone.
\<close>

definition check :: "orec_t \<Rightarrow> word64" where
  "check orc = (case owner orc of None \<Rightarrow> version orc | Some t \<Rightarrow> END_OF_TIME)"

text \<open>
  Modelled from the spec: the part of a thread's \<open>exo\<close> member the claims need. \<open>e_self\<close>
  identifies the thread, \<open>e_start\<close> is the start time of its step (\<open>END_OF_TIME\<close> outside
  a step, which is also its epoch publication), \<open>e_locks\<close> are the orecs the step has
  acquired, each with its version before the acquisition.
\<close>

record exo_t =
  e_self :: nat
  e_start :: word64
  e_locks :: "(nat \<times> word64) list"

type_synonym orecs = "nat \<Rightarrow> orec_t"

text \<open>
  Modelled from the spec: \<open>check_orec\<close> delegates to \<open>check\<close>; \<open>check_continuation\<close>
  validates that the orec still equals the expected version.
\<close>

definition exo_check_orec :: "orecs \<Rightarrow> nat \<Rightarrow> word64" where
  "exo_check_orec os obj = check (os obj)"

definition exo_check_continuation :: "orecs \<Rightarrow> nat \<Rightarrow> word64 \<Rightarrow> bool" where
  "exo_check_continuation os obj val \<longleftrightarrow> owner (os obj) = None \<and> version (os obj) = val"


text \<open>
  Modelled from the spec: \<open>release_revert\<close> unlocks an orec and restores the version it
  had before the acquisition; \<open>release_advance\<close> unlocks it and advances the version.
\<close>

definition release_revert :: "orecs \<Rightarrow> nat \<times> word64 \<Rightarrow> orecs" where
  "release_revert os l = os(fst l := \<lparr>version = snd l, owner = None\<rparr>)"


text \<open>
  Modelled from the spec: \<open>unwind\<close> releases every orec the step acquired, reverting each
  to its pre-acquisition version, and clears the thread's epoch publication. Once
  released, an orec is no longer among those the step holds.
\<close>

definition exo_unwind :: "exo_t \<Rightarrow> orecs \<Rightarrow> exo_t \<times> orecs" where
  "exo_unwind e os = (e\<lparr>e_start := END_OF_TIME, e_locks := []\<rparr>, foldl release_revert os (e_locks e))"


definition exo_ro_end :: "exo_t \<Rightarrow> exo_t" where
  "exo_ro_end e = e\<lparr>e_start := END_OF_TIME\<rparr>"


text \<open>
  Modelled from the spec: the SMR member of the descriptor. A write-step owns a private
  list of the objects passed to \<open>reclaim\<close>; on commit they are stamped with the current
  time and moved to the pool of deferred deletions.
\<close>

record smr_t =
  pending :: "nat list"
  pool :: "(nat \<times> word64) list"

datatype misuse = Assertion_failed


subsection \<open>The wrappers (raii.h)\<close>

text \<open>
  The thread descriptor, as far as the wrappers use it: the members \<open>exo\<close> and \<open>smr\<close>.
\<close>

record ('e, 's) descriptor =
  exo :: 'e
  smr :: 's

text \<open>
  \<open>WStep::unwind() { this->op->exo.unwind(); }\<close>, with \<open>exo.unwind\<close> as the parameter
  \<open>unwind\<close>, working on the \<open>exo\<close> member and the shared memory.
\<close>

definition WStep_unwind ::
  "('e \<Rightarrow> 'm \<Rightarrow> 'e \<times> 'm) \<Rightarrow> ('e, 's) descriptor \<Rightarrow> 'm \<Rightarrow> ('e, 's) descriptor \<times> 'm" where
  "WStep_unwind unwind op m = (case unwind (exo op) m of (e', m') \<Rightarrow> (op\<lparr>exo := e'\<rparr>, m'))"



datatype step_op =
    Check_continuation | Check_orec | Get_start_time
  | Acquire_continuation | Acquire_consistent | Acquire_aggressive | Unwind | Reclaim


definition D0 :: "(exo_t, smr_t) descriptor" where
  "D0 = \<lparr>exo = \<lparr>e_self = 0, e_start = 3, e_locks = [(4, 2)]\<rparr>, smr = \<lparr>pending = [], pool = []\<rparr>\<rparr>"

definition OS0 :: orecs where
  "OS0 = (\<lambda>a. if a = 4 then \<lparr>version = 2, owner = Some 0\<rparr> else \<lparr>version = 0, owner = None\<rparr>)"

definition D1 :: "(exo_t, smr_t) descriptor" where
  "D1 = \<lparr>exo = \<lparr>e_self = 0, e_start = END_OF_TIME, e_locks = []\<rparr>, smr = \<lparr>pending = [], pool = []\<rparr>\<rparr>"

definition OS1 :: orecs where
  "OS1 = (\<lambda>a. if a = 4 then \<lparr>version = 9, owner = Some 1\<rparr> else \<lparr>version = 0, owner = None\<rparr>)"

section \<open>The ordered map on a singly linked list (slist_omap.h)\<close>

text \<open>
  Nodes are addressed by numbers. A \<open>leq_t\<close> and a \<open>snapshot_t\<close> are both a node with an
  observed orec version, so \<open>leq\<close> and \<open>snapshot\<close>, which convert one into the other, are
  the identity. The class \<open>STMCAS\<close> is not among the sources at hand: what \<open>get_leq\<close> uses
  of it is a parameter, as a function of the shared memory at the moment of the access
  (of any type \<open>'h\<close>): \<open>tx.check_orec\<close>, \<open>tx.check_continuation\<close>, the read of a node's
  \<open>next\<close> field, and the constant \<open>STMCAS::END_OF_TIME\<close>.
\<close>

type_synonym leq_t = "nat \<times> word64"

record 'h stmcas =
  check_orec :: "'h \<Rightarrow> nat \<Rightarrow> word64"
  check_continuation :: "'h \<Rightarrow> nat \<Rightarrow> word64 \<Rightarrow> bool"
  next_get :: "'h \<Rightarrow> nat \<Rightarrow> nat"
  STMCAS_END_OF_TIME :: word64

text \<open>
  A list: its two sentinels, the snapshot frequency, the template flag
  \<open>AVOID_OREC_CHECKS\<close>, and the keys of its data nodes. Keys are \<open>const\<close>, so they are a
  function of the node alone; a node that is not a \<open>data_t\<close> has no key.
\<close>

record 'k slist =
  head :: nat
  tail :: nat
  SNAPSHOT_FREQUENCY :: int
  AVOID_OREC_CHECKS :: bool
  key_of :: "nat \<Rightarrow> 'k option"

text \<open>
  The program points of \<open>get_leq\<close>, one for each access to shared memory; the local
  variables \<open>curr\<close>, \<open>nodes_until_snapshot\<close> and \<open>next\<close> are their arguments.
\<close>

datatype gl_pc =
    GL_begin                      \<comment> \<open>top of the outer loop: \<open>RSTEP tx(me)\<close> and the choice of \<open>curr\<close>\<close>
  | GL_check_head                 \<comment> \<open>\<open>curr._ver = tx.check_orec(curr._obj)\<close> for the head\<close>
  | GL_check_snap leq_t           \<comment> \<open>\<open>tx.check_continuation(curr._obj, curr._ver)\<close>\<close>
  | GL_read_next leq_t int        \<comment> \<open>\<open>next = curr._obj->next.get(tx)\<close>\<close>
  | GL_check_next leq_t int nat   \<comment> \<open>\<open>next_ver = tx.check_orec(next)\<close>, without \<open>AVOID_OREC_CHECKS\<close>\<close>
  | GL_recheck_curr nat           \<comment> \<open>\<open>curr._ver = tx.check_orec(curr._obj)\<close> before \<open>return curr\<close>\<close>
  | GL_recheck_next nat           \<comment> \<open>\<open>next_ver = tx.check_orec(next)\<close> before \<open>return {next, next_ver}\<close>\<close>
  | GL_snap_check leq_t nat       \<comment> \<open>\<open>curr._ver = tx.check_orec(curr._obj)\<close> before a snapshot\<close>
  | GL_return leq_t               \<comment> \<open>returned\<close>
  | GL_fault                      \<comment> \<open>\<open>dn->key\<close> of a node that is no \<open>data_t\<close>\<close>

text \<open>
  The thread's side of \<open>get_leq\<close>: the program point and the snapshot stack of the
  descriptor (the top is the first element). \<open>validated\<close> is not a variable of the
  program: it lists the pairs for which a \<open>check_orec\<close> or \<open>check_continuation\<close> has
  succeeded since the current \<open>RSTEP\<close> was constructed.
\<close>

record gl_state =
  g_pc :: gl_pc
  snapshots :: "leq_t list"
  validated :: "leq_t list"

text \<open>
  The body of the inner loop after \<open>next\<close> (and without \<open>AVOID_OREC_CHECKS\<close> its
  version) is known: the comparisons and, if the traversal goes on, the snapshot
  countdown. The result is the program point of the next shared access and the stack.
\<close>

definition decide ::
  "('k::linorder) slist \<Rightarrow> 'k \<Rightarrow> bool \<Rightarrow> leq_t list \<Rightarrow> leq_t \<Rightarrow> int \<Rightarrow> nat \<Rightarrow> word64 \<Rightarrow> gl_pc \<times> leq_t list" where
  "decide L key lt_mode snaps cur n nxt next_ver =
     (if nxt = tail L
      then (if AVOID_OREC_CHECKS L then GL_recheck_curr (fst cur) else GL_return cur, snaps)
      else case key_of L nxt of
        None \<Rightarrow> (GL_fault, snaps)
      | Some k \<Rightarrow>
          if (if lt_mode then k \<ge> key else k > key)
          then (if AVOID_OREC_CHECKS L then GL_recheck_curr (fst cur) else GL_return cur, snaps)
          else if k = key
          then (if AVOID_OREC_CHECKS L then GL_recheck_next nxt else GL_return (nxt, next_ver), snaps)
          else if n - 1 = 0
          then (if AVOID_OREC_CHECKS L then (GL_snap_check cur nxt, snaps)
                else (GL_read_next (nxt, next_ver) (SNAPSHOT_FREQUENCY L), cur # snaps))
          else (if AVOID_OREC_CHECKS L then GL_read_next (nxt, snd cur) (n - 1)
                else GL_read_next (nxt, next_ver) (n - 1), snaps))"

definition gl_step ::
  "'h stmcas \<Rightarrow> ('k::linorder) slist \<Rightarrow> 'k \<Rightarrow> bool \<Rightarrow> gl_state \<Rightarrow> 'h \<Rightarrow> gl_state" where
  "gl_step S L key lt_mode st h = (case g_pc st of
      GL_begin \<Rightarrow>
        (let cur = (if snapshots st = [] then (head L, 0) else hd (snapshots st))
         in st\<lparr>g_pc := (if fst cur = head L then GL_check_head else GL_check_snap cur),
                validated := []\<rparr>)
    | GL_check_head \<Rightarrow>
        (let v = check_orec S h (head L)
         in if v = STMCAS_END_OF_TIME S then st\<lparr>g_pc := GL_begin\<rparr>
            else st\<lparr>g_pc := GL_read_next (head L, v) (SNAPSHOT_FREQUENCY L),
                    validated := (head L, v) # validated st\<rparr>)
    | GL_check_snap cur \<Rightarrow>
        (if \<not> check_continuation S h (fst cur) (snd cur)
         then st\<lparr>g_pc := GL_begin, snapshots := tl (snapshots st)\<rparr>
         else st\<lparr>g_pc := GL_read_next cur (SNAPSHOT_FREQUENCY L),
                 validated := cur # validated st\<rparr>)
    | GL_read_next cur n \<Rightarrow>
        (let nxt = next_get S h (fst cur)
         in if \<not> AVOID_OREC_CHECKS L then st\<lparr>g_pc := GL_check_next cur n nxt\<rparr>
            else (case decide L key lt_mode (snapshots st) cur n nxt 0 of
                    (q, snaps) \<Rightarrow> st\<lparr>g_pc := q, snapshots := snaps\<rparr>))
    | GL_check_next cur n nxt \<Rightarrow>
        (let v = check_orec S h nxt
         in if v = STMCAS_END_OF_TIME S then st\<lparr>g_pc := GL_begin\<rparr>
            else (case decide L key lt_mode (snapshots st) cur n nxt v of
                    (q, snaps) \<Rightarrow>
                      st\<lparr>g_pc := q, snapshots := snaps, validated := (nxt, v) # validated st\<rparr>))
    | GL_recheck_curr obj \<Rightarrow>
        (let v = check_orec S h obj
         in if v = STMCAS_END_OF_TIME S then st\<lparr>g_pc := GL_begin\<rparr>
            else st\<lparr>g_pc := GL_return (obj, v), validated := (obj, v) # validated st\<rparr>)
    | GL_recheck_next nxt \<Rightarrow>
        (let v = check_orec S h nxt
         in if v = STMCAS_END_OF_TIME S then st\<lparr>g_pc := GL_begin\<rparr>
            else st\<lparr>g_pc := GL_return (nxt, v), validated := (nxt, v) # validated st\<rparr>)
    | GL_snap_check cur nxt \<Rightarrow>
        (let v = check_orec S h (fst cur)
         in if v \<noteq> STMCAS_END_OF_TIME S
            then st\<lparr>g_pc := GL_read_next (nxt, v) (SNAPSHOT_FREQUENCY L),
                    snapshots := (fst cur, v) # snapshots st,
                    validated := (fst cur, v) # validated st\<rparr>
            else st\<lparr>g_pc := GL_read_next (nxt, v) (SNAPSHOT_FREQUENCY L)\<rparr>)
    | GL_return r \<Rightarrow> st
    | GL_fault \<Rightarrow> st)"

text \<open>
  \<open>get_leq\<close> running against the shared memory as its accesses find it, one element of
  \<open>hs\<close> for each access, from the state \<open>st\<close>.
\<close>

fun gl_run ::
  "'h stmcas \<Rightarrow> ('k::linorder) slist \<Rightarrow> 'k \<Rightarrow> bool \<Rightarrow> gl_state \<Rightarrow> 'h list \<Rightarrow> gl_state" where
  "gl_run S L key lt_mode st [] = st"
| "gl_run S L key lt_mode st (h # hs) = gl_run S L key lt_mode (gl_step S L key lt_mode st h) hs"

definition gl_start :: "leq_t list \<Rightarrow> gl_state" where
  "gl_start snaps = \<lparr>g_pc = GL_begin, snapshots = snaps, validated = []\<rparr>"

text \<open>
  A node that may precede \<open>key\<close>: not the tail, and the head or a data node with a smaller
  key. The callers of \<open>get_leq\<close> keep only such nodes on the snapshot stack.
\<close>

definition below :: "('k::linorder) slist \<Rightarrow> 'k \<Rightarrow> nat \<Rightarrow> bool" where
  "below L key obj \<longleftrightarrow> obj \<noteq> tail L \<and> (obj = head L \<or> (\<exists>k. key_of L obj = Some k \<and> k < key))"

definition ret_ok :: "('k::linorder) slist \<Rightarrow> 'k \<Rightarrow> bool \<Rightarrow> nat \<Rightarrow> bool" where
  "ret_ok L key lt_mode obj \<longleftrightarrow>
     obj \<noteq> tail L \<and>
     (obj = head L \<or> (\<exists>k. key_of L obj = Some k \<and> (if lt_mode then k < key else k \<le> key)))"

text \<open>What holds at each program point of \<open>get_leq\<close>.\<close>

definition gl_ok :: "('k::linorder) slist \<Rightarrow> 'k \<Rightarrow> bool \<Rightarrow> gl_state \<Rightarrow> bool" where
  "gl_ok L key lt_mode st \<longleftrightarrow>
     (\<forall>s \<in> set (snapshots st). below L key (fst s)) \<and>
     (case g_pc st of
        GL_begin \<Rightarrow> True
      | GL_check_head \<Rightarrow> True
      | GL_check_snap c \<Rightarrow> below L key (fst c)
      | GL_read_next c n \<Rightarrow> below L key (fst c) \<and> (\<not> AVOID_OREC_CHECKS L \<longrightarrow> c \<in> set (validated st))
      | GL_check_next c n nxt \<Rightarrow> below L key (fst c) \<and> c \<in> set (validated st)
      | GL_recheck_curr obj \<Rightarrow> below L key obj
      | GL_recheck_next nxt \<Rightarrow> nxt \<noteq> tail L \<and> key_of L nxt = Some key \<and> \<not> lt_mode
      | GL_snap_check c nxt \<Rightarrow> AVOID_OREC_CHECKS L \<and> below L key (fst c) \<and> below L key nxt
      | GL_return r \<Rightarrow> ret_ok L key lt_mode (fst r) \<and> r \<in> set (validated st)
      | GL_fault \<Rightarrow> True)"

text \<open>Every pair in \<open>validated\<close> passed its check on one of the memories \<open>H\<close>.\<close>

definition checked :: "'h stmcas \<Rightarrow> 'h set \<Rightarrow> leq_t \<Rightarrow> bool" where
  "checked S H r \<longleftrightarrow>
     (\<exists>h \<in> H. (check_orec S h (fst r) = snd r \<and> snd r \<noteq> STMCAS_END_OF_TIME S) \<or>
              check_continuation S h (fst r) (snd r))"

text \<open>A list with the keys 10 and 20 on a memory that never changes, for illustration.\<close>

definition S0 :: "unit stmcas" where
  "S0 = \<lparr>check_orec = (\<lambda>h a. 4), check_continuation = (\<lambda>h a v. v = 4),
         next_get = (\<lambda>h a. if a = 1 then 3 else if a = 3 then 4 else 2),
         STMCAS_END_OF_TIME = - 1\<rparr>"

definition L0 :: "bool \<Rightarrow> nat slist" where
  "L0 avoid = \<lparr>head = 1, tail = 2, SNAPSHOT_FREQUENCY = 1, AVOID_OREC_CHECKS = avoid,
         key_of = (\<lambda>a. if a = 3 then Some 10 else if a = 4 then Some 20 else None)\<rparr>"

subsection \<open>insert\<close>

text \<open>
  The shared memory of the list: the \<open>next\<close> field of every node (0 is \<open>nullptr\<close>), the
  key and value of the data nodes, the orec of every node, the first address \<open>new\<close> has
  not handed out yet, and the clock the steps read their start time from.
\<close>

record ('k, 'v) heap =
  nexts :: "nat \<Rightarrow> nat"
  kvs :: "nat \<Rightarrow> ('k \<times> 'v) option"
  orec_of :: "nat \<Rightarrow> orec_t"
  brk :: nat
  clock :: word64

text \<open>
  Modelled from the spec: the operations of \<open>STMCAS\<close> that \<open>get_leq\<close> uses, on this
  memory, through the ownership records modelled above.
\<close>

definition stm_ops :: "('k, 'v) heap stmcas" where
  "stm_ops = \<lparr>check_orec = (\<lambda>h a. exo_check_orec (orec_of h) a),
              check_continuation = (\<lambda>h a v. exo_check_continuation (orec_of h) a v),
              next_get = (\<lambda>h a. nexts h a),
              STMCAS_END_OF_TIME = END_OF_TIME\<rparr>"

text \<open>
  The list with the keys as the memory has them: \<open>get_leq\<close> reads the key of a node from
  the memory its access finds.
\<close>

definition list_on :: "'k slist \<Rightarrow> ('k, 'v) heap \<Rightarrow> 'k slist" where
  "list_on L h = L\<lparr>key_of := (\<lambda>a. map_option fst (kvs h a))\<rparr>"
























section \<open>Proofs\<close>

lemma construct_all_from:
  "construct_all M k g =
     (if idGenerator g + k \<le> M \<or> k = 0
      then Inr ([idGenerator g ..< idGenerator g + k], g\<lparr>idGenerator := idGenerator g + k\<rparr>)
      else Inl Terminate)"
proof (induction k arbitrary: g)
  case 0
  show ?case by simp
next
  case (Suc k)
  show ?case
  proof (cases "idGenerator g \<ge> M")
    case True
    then show ?thesis by (simp add: BasicEpochManager_def Let_def)
  next
    case False
    then show ?thesis
      using Suc.IH [of "g\<lparr>idGenerator := idGenerator g + 1\<rparr>"]
      by (auto simp: BasicEpochManager_def Let_def upt_conv_Cons)
  qed
qed

text \<open>
  C6. Starting from fresh globals, the managers constructed one after the other get the
  ids \<open>0, 1, 2, ...\<close> in order, one each; as long as at most \<open>MAXTHREADS\<close> managers are
  constructed all constructions succeed, and any longer sequence ends in
  \<open>std::terminate\<close>. The epoch table keeps its \<open>MAXTHREADS\<close> slots throughout.
\<close>

theorem assign_id_monotone_or_fatal:
  "construct_all MAXTHREADS k (new_Globals MAXTHREADS) =
     (if k \<le> MAXTHREADS
      then Inr ([0 ..< k], (new_Globals MAXTHREADS)\<lparr>idGenerator := k\<rparr>)
      else Inl Terminate)"
  by (simp add: construct_all_from new_Globals_def)






































lemma token_inv_same:
  assumes "token_inv tok ths" "p < length ths"
    and "owns th' \<longrightarrow> owns (ths ! p)" and "commit_pc (pc th') \<longrightarrow> hasToken th'"
  shows "token_inv tok (ths[p := th'])"
  using assms unfolding token_inv_def
  by (auto simp: nth_list_update)

lemma token_inv_acquire:
  assumes "token_inv 0 ths" "p < length ths" "tok' \<noteq> 0" "\<not> commit_pc (pc th')"
  shows "token_inv tok' (ths[p := th'])"
  using assms unfolding token_inv_def
  by (auto simp: nth_list_update)

lemma token_inv_release:
  assumes "token_inv tok ths" "p < length ths" "owns (ths ! p)" "\<not> owns th'" "\<not> commit_pc (pc th')"
  shows "token_inv tok' (ths[p := th'])"
  using assms unfolding token_inv_def
  by (auto simp: nth_list_update)

lemma tstep_token_cases_aux:
  assumes "commit_pc (pc th) \<longrightarrow> hasToken th"
  shows "case tstep th g of (th', g', a) \<Rightarrow>
         (token g' = token g \<and> (owns th' \<longrightarrow> owns th) \<and> (commit_pc (pc th') \<longrightarrow> hasToken th')) \<or>
         (token g = 0 \<and> token g' \<noteq> 0 \<and> \<not> commit_pc (pc th')) \<or>
         (owns th \<and> \<not> owns th' \<and> \<not> commit_pc (pc th'))"
  using assms
  by (cases "pc th") (simp_all add: tstep_def store_epoch_def owns_def commit_pc_def)

lemma tstep_token_cases:
  assumes "tstep th g = (th', g', a)" and "commit_pc (pc th) \<longrightarrow> hasToken th"
  shows "(token g' = token g \<and> (owns th' \<longrightarrow> owns th) \<and> (commit_pc (pc th') \<longrightarrow> hasToken th')) \<or>
         (token g = 0 \<and> token g' \<noteq> 0 \<and> \<not> commit_pc (pc th')) \<or>
         (owns th \<and> \<not> owns th' \<and> \<not> commit_pc (pc th'))"
  using tstep_token_cases_aux [OF assms(2), of g] assms(1) by simp


lemma token_inv_step:
  assumes inv: "token_inv (token (glob c)) (threads c)"
    and step: "sys_step tstep M c e = Some c'" and disc: "commit_by_holder c e"
  shows "token_inv (token (glob c')) (threads c')"
proof (cases e)
  case Construct
  have new: "\<not> owns (new_thread i)" "\<not> commit_pc (pc (new_thread i))" for i
    by (simp_all add: owns_def new_thread_def commit_pc_def)
  from step Construct have tok: "token (glob c') = token (glob c)"
    and ths: "threads c' = threads c \<or> threads c' = threads c @ [new_thread (idGenerator (glob c))]"
    by (auto simp: sys_step_def BasicEpochManager_def Let_def split: if_splits)
  from ths show ?thesis
  proof
    assume "threads c' = threads c"
    with inv tok show ?thesis by simp
  next
    assume "threads c' = threads c @ [new_thread (idGenerator (glob c))]"
    with inv tok new [of "idGenerator (glob c)"] show ?thesis
      unfolding token_inv_def by (auto simp: nth_append less_Suc_eq)
  qed
next
  case (Call p m)
  with step have p: "p < length (threads c)" and out: "is_Out (pc (threads c ! p))"
    and c': "c' = c\<lparr>threads := (threads c)[p := (threads c ! p)\<lparr>pc := enter m\<rparr>]\<rparr>"
    by (auto simp: sys_step_def split: if_splits)
  from out have o: "owns ((threads c ! p)\<lparr>pc := enter m\<rparr>) \<longrightarrow> owns (threads c ! p)"
    by (cases "pc (threads c ! p)"; cases m) (auto simp: owns_def enter_def)
  from disc Call have h: "commit_pc (pc ((threads c ! p)\<lparr>pc := enter m\<rparr>)) \<longrightarrow> hasToken ((threads c ! p)\<lparr>pc := enter m\<rparr>)"
    by (cases m) (auto simp: enter_def commit_pc_def)
  from token_inv_same [OF inv p o h] c' show ?thesis by simp
next
  case (Step p)
  with step obtain th' g' a where p: "p < length (threads c)"
    and s: "tstep (threads c ! p) (glob c) = (th', g', a)"
    and c': "c' = \<lparr>glob = g', threads = (threads c)[p := th'], dead = (pc th' = Abort)\<rparr>"
    by (auto simp: sys_step_def split: if_splits prod.splits)
  from inv p have "commit_pc (pc (threads c ! p)) \<longrightarrow> hasToken (threads c ! p)"
    by (simp add: token_inv_def)
  from tstep_token_cases [OF s this] show ?thesis
  proof (elim disjE conjE)
    assume "token g' = token (glob c)" "owns th' \<longrightarrow> owns (threads c ! p)"
      "commit_pc (pc th') \<longrightarrow> hasToken th'"
    with token_inv_same [OF inv p] c' show ?thesis by simp
  next
    assume "token (glob c) = 0" "token g' \<noteq> 0" "\<not> commit_pc (pc th')"
    with token_inv_acquire [of "threads c" p "token g'" th'] inv p c' show ?thesis by simp
  next
    assume "owns (threads c ! p)" "\<not> owns th'" "\<not> commit_pc (pc th')"
    with token_inv_release [OF inv p, of th' "token g'"] c' show ?thesis by simp
  qed
qed

lemma token_inv_exec:
  assumes "exec tstep M c es = Some c'" "holder_commits tstep M c es"
    "token_inv (token (glob c)) (threads c)"
  shows "token_inv (token (glob c')) (threads c')"
  using assms
proof (induction es arbitrary: c)
  case Nil
  then show ?case by simp
next
  case (Cons e es)
  from Cons.prems(1) obtain c1 where s: "sys_step tstep M c e = Some c1"
    and r: "exec tstep M c1 es = Some c'"
    by (auto split: option.splits)
  from Cons.prems(2) s have disc: "commit_by_holder c e" and h: "holder_commits tstep M c1 es"
    by simp_all
  from Cons.IH [OF r h token_inv_step [OF Cons.prems(3) s disc]] show ?case .
qed

lemma token_inv_init: "token_inv (token (glob (init M))) (threads (init M))"
  by (simp add: token_inv_def init_def)

lemma step_existIrrevoc:
  assumes "\<not> dead c" "q < length (threads c)" "pc (threads c ! q) = Exist_read"
  shows "sys_step tstep M c (Step q)
         = Some (c\<lparr>threads := (threads c)[q := (threads c ! q)\<lparr>pc := Out (Some (token (glob c) \<noteq> 0))\<rparr>]\<rparr>)"
  using assms by (simp add: sys_step_def tstep_def)

lemma step_tryIrrevoc_flag:
  assumes "\<not> dead c" "q < length (threads c)" "pc (threads c ! q) = Try_flag"
    "\<not> hasToken (threads c ! q)"
  shows "sys_step tstep M c (Step q)
         = Some (c\<lparr>threads := (threads c)[q := (threads c ! q)\<lparr>pc := Try_read\<rparr>]\<rparr>)"
  using assms by (simp add: sys_step_def tstep_def)

lemma step_tryIrrevoc_fails:
  assumes "\<not> dead c" "q < length (threads c)"
    "pc (threads c ! q) = Try_read \<or> pc (threads c ! q) = Try_cas" "token (glob c) \<noteq> 0"
  shows "sys_step tstep M c (Step q)
         = Some (c\<lparr>threads := (threads c)[q := (threads c ! q)\<lparr>pc := Out (Some False)\<rparr>]\<rparr>)"
  using assms by (auto simp: sys_step_def tstep_def)

lemma call_existIrrevoc:
  assumes "\<not> dead c" "q < length (threads c)" "is_Out (pc (threads c ! q))"
  shows "do_call tstep M 1 c (Call q ExistIrrevoc)
         = Some (c\<lparr>threads := (threads c)[q := (threads c ! q)\<lparr>pc := Out (Some (token (glob c) \<noteq> 0))\<rparr>]\<rparr>)"
  using assms by (simp add: do_call_def sys_step_def enter_def tstep_def)

lemma call_tryIrrevoc_fails:
  assumes "\<not> dead c" "q < length (threads c)" "is_Out (pc (threads c ! q))"
    "\<not> hasToken (threads c ! q)" "token (glob c) \<noteq> 0"
  shows "do_call tstep M 2 c (Call q TryIrrevoc)
         = Some (c\<lparr>threads := (threads c)[q := (threads c ! q)\<lparr>pc := Out (Some False)\<rparr>]\<rparr>)"
  using assms by (simp add: do_call_def sys_step_def enter_def tstep_def numeral_2_eq_2)

lemmas exec_defs =
  init_def new_Globals_def sys_step_def BasicEpochManager_def new_thread_def enter_def
  tstep_def store_epoch_def IDLE_def

lemma exec_two_threads:
  "exec tstep 2 (init 2) ([Construct, Construct] @ es)
   = exec tstep 2 \<lparr>glob = \<lparr>idGenerator = 2, epochs = [IDLE, IDLE], token = 0\<rparr>,
        threads = [new_thread 0, new_thread 1], dead = False\<rparr> es"
  by (simp add: init_def new_Globals_def sys_step_def BasicEpochManager_def numeral_2_eq_2)

text \<open>
  C2, as stated: any sequence of \<open>tryIrrevoc\<close> and \<open>onCommitIrrevoc\<close> calls keeps at most
  one thread with \<open>hasToken\<close> set. It fails: \<open>onCommitIrrevoc\<close> stores 0 in the token
  whoever calls it. Thread 0 takes the token, thread 1 calls \<open>onCommitIrrevoc\<close> and then
  \<open>tryIrrevoc\<close>, each call running alone to its return: both threads end outside every
  method with \<open>hasToken\<close> set. The run is given twice, call by call and event by event.
\<close>

theorem token_two_holders_counterexample:
  "exec_calls tstep 2 8 (init 2)
     [Construct, Construct, Call 0 TryIrrevoc, Call 1 OnCommitIrrevoc, Call 1 TryIrrevoc] = Some CX2 \<and>
   exec tstep 2 (init 2) ([Construct, Construct] @ irrevoc0 @ commit1 @ irrevoc1) = Some CX2 \<and>
   hasToken (threads CX2 ! 0) \<and> hasToken (threads CX2 ! 1) \<and>
   is_Out (pc (threads CX2 ! 0)) \<and> is_Out (pc (threads CX2 ! 1)) \<and>
   owns (threads CX2 ! 0) \<and> owns (threads CX2 ! 1)"
proof -
  have a: "exec_calls tstep 2 8 (init 2)
     [Construct, Construct, Call 0 TryIrrevoc, Call 1 OnCommitIrrevoc, Call 1 TryIrrevoc] = Some CX2"
    by (simp add: CX2_def init_def new_Globals_def do_call_def sys_step_def BasicEpochManager_def
      new_thread_def enter_def tstep_def store_epoch_def IDLE_def eval_nat_numeral)
  have b: "exec tstep 2 (init 2) ([Construct, Construct] @ irrevoc0 @ commit1 @ irrevoc1) = Some CX2"
    unfolding exec_two_threads
    by (simp add: CX2_def irrevoc0_def irrevoc1_def commit1_def sys_step_def new_thread_def enter_def
        tstep_def store_epoch_def IDLE_def)
  from a b show ?thesis by (simp add: CX2_def owns_def)
qed

text \<open>
  C2, amended: in every state reached by any interleaving of the steps of the threads, in
  which \<open>onCommitIrrevoc\<close> is only called by a thread whose \<open>hasToken\<close> is set, at most
  one thread has the token, from its successful compare-and-swap in \<open>tryIrrevoc\<close> to its
  store of 0 in \<open>onCommitIrrevoc\<close>; so at most one thread that is not at the last
  assignment of \<open>onCommitIrrevoc\<close> has \<open>hasToken\<close> set. While a thread has the token, the
  token is not zero; the read of \<open>existIrrevoc\<close> by any thread returns true; in
  \<open>tryIrrevoc\<close> any other thread finds its \<open>hasToken\<close> clear, and its read of the token as
  well as its compare-and-swap fail and return false, leaving everything else as it is;
  and the two calls, run alone from outside every method, return true and false.
\<close>

theorem token_single_holder:
  assumes "exec tstep M (init M) es = Some c" and "holder_commits tstep M (init M) es"
  shows "(\<forall>p < length (threads c). \<forall>q < length (threads c).
            owns (threads c ! p) \<longrightarrow> owns (threads c ! q) \<longrightarrow> p = q) \<and>
         (\<forall>p < length (threads c). \<forall>q < length (threads c).
            hasToken (threads c ! p) \<longrightarrow> hasToken (threads c ! q) \<longrightarrow>
            p = q \<or> pc (threads c ! p) = Commit_flag \<or> pc (threads c ! q) = Commit_flag) \<and>
         (\<forall>p < length (threads c). owns (threads c ! p) \<longrightarrow>
            token (glob c) \<noteq> 0 \<and>
            (\<not> dead c \<longrightarrow>
               (\<forall>q < length (threads c). pc (threads c ! q) = Exist_read \<longrightarrow>
                  sys_step tstep M c (Step q)
                    = Some (c\<lparr>threads := (threads c)[q := (threads c ! q)\<lparr>pc := Out (Some True)\<rparr>]\<rparr>)) \<and>
               (\<forall>q < length (threads c). q \<noteq> p \<longrightarrow> pc (threads c ! q) = Try_flag \<longrightarrow>
                  sys_step tstep M c (Step q)
                    = Some (c\<lparr>threads := (threads c)[q := (threads c ! q)\<lparr>pc := Try_read\<rparr>]\<rparr>)) \<and>
               (\<forall>q < length (threads c). q \<noteq> p \<longrightarrow>
                  pc (threads c ! q) = Try_read \<or> pc (threads c ! q) = Try_cas \<longrightarrow>
                  sys_step tstep M c (Step q)
                    = Some (c\<lparr>threads := (threads c)[q := (threads c ! q)\<lparr>pc := Out (Some False)\<rparr>]\<rparr>)) \<and>
               (\<forall>q < length (threads c). is_Out (pc (threads c ! q)) \<longrightarrow>
                  do_call tstep M 1 c (Call q ExistIrrevoc)
                    = Some (c\<lparr>threads := (threads c)[q := (threads c ! q)\<lparr>pc := Out (Some True)\<rparr>]\<rparr>)) \<and>
               (\<forall>q < length (threads c). q \<noteq> p \<longrightarrow> is_Out (pc (threads c ! q)) \<longrightarrow>
                  do_call tstep M 2 c (Call q TryIrrevoc)
                    = Some (c\<lparr>threads := (threads c)[q := (threads c ! q)\<lparr>pc := Out (Some False)\<rparr>]\<rparr>))))"
proof -
  from token_inv_exec [OF assms token_inv_init]
  have inv: "token_inv (token (glob c)) (threads c)" .
  have uniq: "p = q" if "p < length (threads c)" "q < length (threads c)"
    "owns (threads c ! p)" "owns (threads c ! q)" for p q
    using inv that unfolding token_inv_def by blast
  have tok: "token (glob c) \<noteq> 0" if "p < length (threads c)" "owns (threads c ! p)" for p
    using inv that unfolding token_inv_def by blast
  have flag: "p = q \<or> pc (threads c ! p) = Commit_flag \<or> pc (threads c ! q) = Commit_flag"
    if "p < length (threads c)" "q < length (threads c)"
      "hasToken (threads c ! p)" "hasToken (threads c ! q)" for p q
    using uniq [OF that(1,2)] that(3,4) by (auto simp: owns_def)
  have other: "\<not> hasToken (threads c ! q) \<or> pc (threads c ! q) = Commit_flag"
    if "p < length (threads c)" "owns (threads c ! p)" "q < length (threads c)" "q \<noteq> p" for p q
    using uniq [OF that(1,3,2)] that(4) by (auto simp: owns_def)
  show ?thesis
  proof (intro conjI allI impI)
    fix p q assume "p < length (threads c)" "q < length (threads c)"
      "owns (threads c ! p)" "owns (threads c ! q)"
    then show "p = q" by (rule uniq)
  next
    fix p q assume "p < length (threads c)" "q < length (threads c)"
      "hasToken (threads c ! p)" "hasToken (threads c ! q)"
    then show "p = q \<or> pc (threads c ! p) = Commit_flag \<or> pc (threads c ! q) = Commit_flag"
      by (rule flag)
  next
    fix p assume "p < length (threads c)" "owns (threads c ! p)"
    then show "token (glob c) \<noteq> 0" by (rule tok)
  next
    fix p q assume p: "p < length (threads c)" "owns (threads c ! p)" and d: "\<not> dead c"
      and q: "q < length (threads c)" "pc (threads c ! q) = Exist_read"
    from step_existIrrevoc [OF d q, of M] tok [OF p]
    show "sys_step tstep M c (Step q)
            = Some (c\<lparr>threads := (threads c)[q := (threads c ! q)\<lparr>pc := Out (Some True)\<rparr>]\<rparr>)"
      by simp
  next
    fix p q assume p: "p < length (threads c)" "owns (threads c ! p)" and d: "\<not> dead c"
      and q: "q < length (threads c)" "q \<noteq> p" and pcq: "pc (threads c ! q) = Try_flag"
    from other [OF p q] pcq have "\<not> hasToken (threads c ! q)" by simp
    from step_tryIrrevoc_flag [OF d q(1) pcq this]
    show "sys_step tstep M c (Step q)
            = Some (c\<lparr>threads := (threads c)[q := (threads c ! q)\<lparr>pc := Try_read\<rparr>]\<rparr>)" .
  next
    fix p q assume p: "p < length (threads c)" "owns (threads c ! p)" and d: "\<not> dead c"
      and q: "q < length (threads c)"
      and pcq: "pc (threads c ! q) = Try_read \<or> pc (threads c ! q) = Try_cas"
    from step_tryIrrevoc_fails [OF d q pcq tok [OF p]]
    show "sys_step tstep M c (Step q)
            = Some (c\<lparr>threads := (threads c)[q := (threads c ! q)\<lparr>pc := Out (Some False)\<rparr>]\<rparr>)" .
  next
    fix p q assume p: "p < length (threads c)" "owns (threads c ! p)" and d: "\<not> dead c"
      and q: "q < length (threads c)" "is_Out (pc (threads c ! q))"
    from call_existIrrevoc [OF d q, of M] tok [OF p]
    show "do_call tstep M 1 c (Call q ExistIrrevoc)
            = Some (c\<lparr>threads := (threads c)[q := (threads c ! q)\<lparr>pc := Out (Some True)\<rparr>]\<rparr>)"
      by simp
  next
    fix p q assume p: "p < length (threads c)" "owns (threads c ! p)" and d: "\<not> dead c"
      and q: "q < length (threads c)" "q \<noteq> p" and o: "is_Out (pc (threads c ! q))"
    from other [OF p q] o have "\<not> hasToken (threads c ! q)" by auto
    from call_tryIrrevoc_fails [OF d q(1) o this tok [OF p]]
    show "do_call tstep M 2 c (Call q TryIrrevoc)
            = Some (c\<lparr>threads := (threads c)[q := (threads c ! q)\<lparr>pc := Out (Some False)\<rparr>]\<rparr>)" .
  qed
qed

text \<open>
  Two states the statement covers. In the first the two threads race for the free token:
  both have read it as zero, thread 0 has won the compare-and-swap, and the
  compare-and-swap of thread 1 fails. The second shows why \<open>hasToken\<close> alone does not say
  who has the token: \<open>onCommitIrrevoc\<close> stores 0 in the token before it clears
  \<open>hasToken\<close>, and between the two another thread can take the token and return from
  \<open>tryIrrevoc\<close>. Thread 0 takes the token and runs \<open>onCommitIrrevoc\<close> up to
  \<open>hasToken = false\<close>, then thread 1 runs \<open>tryIrrevoc\<close>: both fields are set, and thread 1
  has the token.
\<close>

theorem token_single_holder_witness:
  "exec tstep 2 (init 2)
     [Construct, Construct, Call 0 TryIrrevoc, Call 1 TryIrrevoc,
      Step 0, Step 1, Step 0, Step 1, Step 0] = Some CR2 \<and>
   holder_commits tstep 2 (init 2)
     [Construct, Construct, Call 0 TryIrrevoc, Call 1 TryIrrevoc,
      Step 0, Step 1, Step 0, Step 1, Step 0] \<and>
   owns (threads CR2 ! 0) \<and> \<not> owns (threads CR2 ! 1) \<and> token (glob CR2) \<noteq> 0 \<and>
   pc (threads CR2 ! 1) = Try_cas \<and>
   sys_step tstep 2 CR2 (Step 1)
     = Some (CR2\<lparr>threads := (threads CR2)[1 := (threads CR2 ! 1)\<lparr>pc := Out (Some False)\<rparr>]\<rparr>) \<and>
   exec tstep 2 (init 2)
     ([Construct, Construct] @ irrevoc0 @ [Call 0 OnCommitIrrevoc, Step 0, Step 0] @ irrevoc1) = Some CL2 \<and>
   holder_commits tstep 2 (init 2)
     ([Construct, Construct] @ irrevoc0 @ [Call 0 OnCommitIrrevoc, Step 0, Step 0] @ irrevoc1) \<and>
   hasToken (threads CL2 ! 0) \<and> hasToken (threads CL2 ! 1) \<and>
   pc (threads CL2 ! 0) = Commit_flag \<and> \<not> owns (threads CL2 ! 0) \<and> owns (threads CL2 ! 1) \<and>
   token (glob CL2) \<noteq> 0"
proof -
  have ex: "exec tstep 2 (init 2)
     [Construct, Construct, Call 0 TryIrrevoc, Call 1 TryIrrevoc,
      Step 0, Step 1, Step 0, Step 1, Step 0] = Some CR2"
    by (simp add: CR2_def exec_defs numeral_2_eq_2)
  have hc: "holder_commits tstep 2 (init 2)
     [Construct, Construct, Call 0 TryIrrevoc, Call 1 TryIrrevoc,
      Step 0, Step 1, Step 0, Step 1, Step 0]"
    by (simp add: exec_defs numeral_2_eq_2)
  have facts: "(0::nat) < length (threads CR2)" "(1::nat) < length (threads CR2)"
    "owns (threads CR2 ! 0)" "\<not> owns (threads CR2 ! 1)" "\<not> dead CR2"
    "pc (threads CR2 ! 1) = Try_cas"
    by (simp_all add: CR2_def owns_def)
  from token_single_holder [OF ex hc] facts
  have race: "token (glob CR2) \<noteq> 0 \<and>
   sys_step tstep 2 CR2 (Step 1)
     = Some (CR2\<lparr>threads := (threads CR2)[1 := (threads CR2 ! 1)\<lparr>pc := Out (Some False)\<rparr>]\<rparr>)"
    by (metis zero_neq_one)
  have exl: "exec tstep 2 (init 2)
     ([Construct, Construct] @ irrevoc0 @ [Call 0 OnCommitIrrevoc, Step 0, Step 0] @ irrevoc1) = Some CL2"
    unfolding exec_two_threads
    by (simp add: CL2_def irrevoc0_def irrevoc1_def sys_step_def new_thread_def enter_def
        tstep_def store_epoch_def IDLE_def)
  have hcl: "holder_commits tstep 2 (init 2)
     ([Construct, Construct] @ irrevoc0 @ [Call 0 OnCommitIrrevoc, Step 0, Step 0] @ irrevoc1)"
    by (simp add: irrevoc0_def irrevoc1_def exec_defs numeral_2_eq_2)
  have lfacts: "(1::nat) < length (threads CL2)"
    "hasToken (threads CL2 ! 0)" "hasToken (threads CL2 ! 1)"
    "pc (threads CL2 ! 0) = Commit_flag" "\<not> owns (threads CL2 ! 0)" "owns (threads CL2 ! 1)"
    by (simp_all add: CL2_def owns_def)
  from token_single_holder [OF exl hcl] lfacts(1,6)
  have linger: "token (glob CL2) \<noteq> 0" by blast
  from ex hc facts race exl hcl lfacts linger show ?thesis by simp
qed

lemma tstep_slot_aux:
  assumes "tid th < length (epochs g)" "slot_ok (epochs g) th"
  shows "case tstep th g of (th', g', a) \<Rightarrow>
           tid th' = tid th \<and> idGenerator g' = idGenerator g \<and>
           length (epochs g') = length (epochs g) \<and>
           (\<forall>i. i \<noteq> tid th \<longrightarrow> epochs g' ! i = epochs g ! i) \<and> slot_ok (epochs g') th'"
  using assms
  by (cases "pc th") (simp_all add: tstep_def store_epoch_def slot_ok_def live_slot_def)

lemma tstep_slot:
  assumes "tstep th g = (th', g', a)" "tid th < length (epochs g)" "slot_ok (epochs g) th"
  shows "tid th' = tid th" "idGenerator g' = idGenerator g" "length (epochs g') = length (epochs g)"
    "i \<noteq> tid th \<Longrightarrow> epochs g' ! i = epochs g ! i" "slot_ok (epochs g') th'"
  using tstep_slot_aux [OF assms(2,3)] assms(1) by simp_all

lemma slot_ok_other:
  "slot_ok es th \<Longrightarrow> es' ! tid th = es ! tid th \<Longrightarrow> slot_ok es' th"
  by (simp add: slot_ok_def)

lemma slot_ok_enter:
  "is_Out (pc th) \<Longrightarrow> slot_ok es th \<Longrightarrow> slot_ok es (th\<lparr>pc := enter m\<rparr>)"
  by (cases "pc th"; cases m) (simp_all add: slot_ok_def enter_def live_slot_def)

lemma slot_inv_init: "slot_inv M (init M)"
  by (simp add: slot_inv_def init_def new_Globals_def)

lemma slot_inv_update:
  assumes inv: "slot_inv M c" and p: "p < length (threads c)" and tid: "tid th' = p"
    and ok: "slot_ok (epochs g') th'" and len: "length (epochs g') = M"
    and idg: "idGenerator g' = idGenerator (glob c)" and alive: "\<not> dead c"
    and oth: "\<And>i. i \<noteq> p \<Longrightarrow> epochs g' ! i = epochs (glob c) ! i"
  shows "slot_inv M \<lparr>glob = g', threads = (threads c)[p := th'], dead = d\<rparr>"
proof -
  have thr: "tid ((threads c)[p := th'] ! q) = q \<and> slot_ok (epochs g') ((threads c)[p := th'] ! q)"
    if q: "q < length (threads c)" for q
  proof (cases "q = p")
    case True
    with p tid ok show ?thesis by simp
  next
    case False
    from inv q have "tid (threads c ! q) = q" "slot_ok (epochs (glob c)) (threads c ! q)"
      by (simp_all add: slot_inv_def)
    with False oth [of q] show ?thesis by (auto intro: slot_ok_other)
  qed
  have unreg: "epochs g' ! i = IDLE" if "length (threads c) \<le> i" "i < M" for i
    using inv that p oth [of i] by (simp add: slot_inv_def)
  from inv len idg alive thr unreg show ?thesis
    by (simp add: slot_inv_def)
qed

lemma slot_inv_step:
  assumes inv: "slot_inv M c" and step: "sys_step tstep M c e = Some c'"
  shows "slot_inv M c'"
proof (cases e)
  case Construct
  from step have alive: "\<not> dead c" by (auto simp: sys_step_def split: if_splits)
  show ?thesis
  proof (cases "idGenerator (glob c) \<ge> M")
    case True
    with step Construct
    have "c' = c\<lparr>glob := (glob c)\<lparr>idGenerator := idGenerator (glob c) + 1\<rparr>, dead := True\<rparr>"
      by (auto simp: sys_step_def BasicEpochManager_def Let_def split: if_splits)
    with inv show ?thesis by (simp add: slot_inv_def)
  next
    case False
    with step Construct have c': "c' = c\<lparr>glob := (glob c)\<lparr>idGenerator := idGenerator (glob c) + 1\<rparr>,
        threads := threads c @ [new_thread (idGenerator (glob c))]\<rparr>"
      by (auto simp: sys_step_def BasicEpochManager_def Let_def split: if_splits)
    have new: "slot_ok es (new_thread i) \<longleftrightarrow> es ! i = IDLE" for es i
      by (auto simp: slot_ok_def new_thread_def live_slot_def)
    have ntid: "tid (new_thread i) = i" for i by (simp add: new_thread_def)
    from inv False alive c' show ?thesis
      unfolding slot_inv_def
      by (auto simp: nth_append new ntid less_Suc_eq)
  qed
next
  case (Call p m)
  from step have alive: "\<not> dead c" by (auto simp: sys_step_def split: if_splits)
  from step Call have p: "p < length (threads c)" and out: "is_Out (pc (threads c ! p))"
    and c': "c' = \<lparr>glob = glob c, threads = (threads c)[p := (threads c ! p)\<lparr>pc := enter m\<rparr>], dead = dead c\<rparr>"
    by (auto simp: sys_step_def split: if_splits)
  from inv p have ok: "slot_ok (epochs (glob c)) (threads c ! p)" and tidp: "tid (threads c ! p) = p"
    and len: "length (epochs (glob c)) = M"
    by (simp_all add: slot_inv_def)
  from slot_inv_update [OF inv p _ slot_ok_enter [OF out ok, of m] len _ alive] tidp c'
  show ?thesis by simp
next
  case (Step p)
  from step have alive: "\<not> dead c" by (auto simp: sys_step_def split: if_splits)
  from step Step obtain th' g' a where p: "p < length (threads c)"
    and s: "tstep (threads c ! p) (glob c) = (th', g', a)"
    and c': "c' = \<lparr>glob = g', threads = (threads c)[p := th'], dead = (pc th' = Abort)\<rparr>"
    by (auto simp: sys_step_def split: if_splits prod.splits)
  from inv p have tidp: "tid (threads c ! p) = p" and inr: "tid (threads c ! p) < length (epochs (glob c))"
    and ok: "slot_ok (epochs (glob c)) (threads c ! p)" and len: "length (epochs (glob c)) = M"
    by (simp_all add: slot_inv_def)
  note st = tstep_slot [OF s inr ok]
  from slot_inv_update [OF inv p _ st(5) _ st(2) alive, of "pc th' = Abort"] st(1,3,4) tidp len c'
  show ?thesis by simp
qed

lemma slot_inv_exec:
  "exec tstep M c es = Some c' \<Longrightarrow> slot_inv M c \<Longrightarrow> slot_inv M c'"
proof (induction es arbitrary: c)
  case Nil
  then show ?case by simp
next
  case (Cons e es)
  from Cons.prems(1) obtain c1 where s: "sys_step tstep M c e = Some c1"
    and r: "exec tstep M c1 es = Some c'"
    by (auto split: option.splits)
  from Cons.IH [OF r slot_inv_step [OF Cons.prems(2) s]] show ?case .
qed

lemma sys_step_Step_eq:
  assumes "sys_step stp M c (Step p) = Some c'"
  shows "p < length (threads c)"
    "c' = (case stp (threads c ! p) (glob c) of (th', g', a) \<Rightarrow>
             \<lparr>glob = g', threads = (threads c)[p := th'], dead = (pc th' = Abort)\<rparr>)"
  using assms by (auto simp: sys_step_def split: if_splits prod.splits)

text \<open>
  C3. \<open>onBegin(time)\<close> in any interleaving of the threads. When the thread examines the
  token it has \<open>time\<close> in its slot; the call returns only by the step that reads the token
  as zero, and at that moment the slot holds \<open>time\<close>. When the token is read non-zero the
  next step stores the idle sentinel in the slot, and only then the thread spins: a
  spinning thread has an idle slot and keeps spinning while the token is non-zero.
\<close>

theorem onBegin_barrier:
  assumes "exec tstep M (init M) es = Some c" and "p < length (threads c)"
  shows "(\<forall>t. pc (threads c ! p) = Begin_check t \<longrightarrow> epochs (glob c) ! p = t) \<and>
         (\<forall>t. pc (threads c ! p) = Begin_spin t \<longrightarrow> epochs (glob c) ! p = IDLE) \<and>
         (\<forall>c'. in_onBegin (pc (threads c ! p)) \<longrightarrow> sys_step tstep M c (Step p) = Some c' \<longrightarrow>
            is_Out (pc (threads c' ! p)) \<longrightarrow>
            token (glob c) = 0 \<and> glob c' = glob c \<and>
            (\<exists>t. pc (threads c ! p) = Begin_check t \<and> epochs (glob c) ! p = t \<and>
                 live (threads c' ! p) = Some t)) \<and>
         (\<forall>c' t. pc (threads c ! p) = Begin_check t \<longrightarrow> token (glob c) \<noteq> 0 \<longrightarrow>
            sys_step tstep M c (Step p) = Some c' \<longrightarrow>
            pc (threads c' ! p) = Begin_clear t \<and> glob c' = glob c) \<and>
         (\<forall>c' t. pc (threads c ! p) = Begin_clear t \<longrightarrow> sys_step tstep M c (Step p) = Some c' \<longrightarrow>
            pc (threads c' ! p) = Begin_spin t \<and> epochs (glob c') ! p = IDLE) \<and>
         (\<forall>c' t. pc (threads c ! p) = Begin_spin t \<longrightarrow> token (glob c) \<noteq> 0 \<longrightarrow>
            sys_step tstep M c (Step p) = Some c' \<longrightarrow>
            pc (threads c' ! p) = Begin_spin t \<and> glob c' = glob c)"
proof -
  from slot_inv_exec [OF assms(1) slot_inv_init] have inv: "slot_inv M c" .
  with assms(2) have tid: "tid (threads c ! p) = p" and inr: "p < length (epochs (glob c))"
    and ok: "slot_ok (epochs (glob c)) (threads c ! p)"
    by (simp_all add: slot_inv_def)
  have chk: "epochs (glob c) ! p = t" if "pc (threads c ! p) = Begin_check t" for t
    using ok tid that by (simp add: slot_ok_def)
  have spin: "epochs (glob c) ! p = IDLE" if "pc (threads c ! p) = Begin_spin t" for t
    using ok tid that by (simp add: slot_ok_def)
  have ret: "token (glob c) = 0 \<and> glob c' = glob c \<and>
            (\<exists>t. pc (threads c ! p) = Begin_check t \<and> epochs (glob c) ! p = t \<and>
                 live (threads c' ! p) = Some t)"
    if "in_onBegin (pc (threads c ! p))" "sys_step tstep M c (Step p) = Some c'"
      "is_Out (pc (threads c' ! p))" for c'
    using that(1,3) sys_step_Step_eq [OF that(2)] tid inr chk
    by (cases "pc (threads c ! p)") (auto simp: tstep_def store_epoch_def split: if_splits)
  have held: "pc (threads c' ! p) = Begin_clear t \<and> glob c' = glob c"
    if "pc (threads c ! p) = Begin_check t" "token (glob c) \<noteq> 0"
      "sys_step tstep M c (Step p) = Some c'" for c' t
    using that(1,2) sys_step_Step_eq [OF that(3)] by (simp add: tstep_def)
  have clr: "pc (threads c' ! p) = Begin_spin t \<and> epochs (glob c') ! p = IDLE"
    if "pc (threads c ! p) = Begin_clear t" "sys_step tstep M c (Step p) = Some c'" for c' t
    using that(1) sys_step_Step_eq [OF that(2)] tid inr by (simp add: tstep_def store_epoch_def)
  have stay: "pc (threads c' ! p) = Begin_spin t \<and> glob c' = glob c"
    if "pc (threads c ! p) = Begin_spin t" "token (glob c) \<noteq> 0"
      "sys_step tstep M c (Step p) = Some c'" for c' t
    using that(1,2) sys_step_Step_eq [OF that(3)] by (simp add: tstep_def)
  from chk spin ret held clr stay show ?thesis by blast
qed

theorem onBegin_barrier_witness:
  "exec tstep 2 (init 2)
     [Construct, Construct, Call 0 TryIrrevoc, Step 0, Step 0, Step 0, Call 1 (OnBegin 5), Step 1]
     = Some CW3 \<and>
   pc (threads CW3 ! 1) = Begin_check 5 \<and> token (glob CW3) \<noteq> 0 \<and> epochs (glob CW3) ! 1 = 5 \<and>
   sys_step tstep 2 CW3 (Step 1)
     = Some (CW3\<lparr>threads := (threads CW3)[1 := (threads CW3 ! 1)\<lparr>pc := Begin_clear 5\<rparr>]\<rparr>) \<and>
   pc (threads (CW3\<lparr>threads := (threads CW3)[1 := (threads CW3 ! 1)\<lparr>pc := Begin_clear 5\<rparr>]\<rparr>) ! 1)
     = Begin_clear 5"
proof -
  have ex: "exec tstep 2 (init 2)
     [Construct, Construct, Call 0 TryIrrevoc, Step 0, Step 0, Step 0, Call 1 (OnBegin 5), Step 1]
     = Some CW3"
    by (simp add: CW3_def init_def new_Globals_def sys_step_def BasicEpochManager_def
        new_thread_def enter_def tstep_def store_epoch_def IDLE_def numeral_2_eq_2)
  have p: "(1::nat) < length (threads CW3)" and pc: "pc (threads CW3 ! 1) = Begin_check 5"
    and tok: "token (glob CW3) \<noteq> 0"
    by (simp_all add: CW3_def)
  have st: "sys_step tstep 2 CW3 (Step 1)
     = Some (CW3\<lparr>threads := (threads CW3)[1 := (threads CW3 ! 1)\<lparr>pc := Begin_clear 5\<rparr>]\<rparr>)"
    by (simp add: CW3_def sys_step_def tstep_def)
  from onBegin_barrier [OF ex p] pc tok st
  have "epochs (glob CW3) ! 1 = 5 \<and>
    pc (threads (CW3\<lparr>threads := (threads CW3)[1 := (threads CW3 ! 1)\<lparr>pc := Begin_clear 5\<rparr>]\<rparr>) ! 1)
      = Begin_clear 5"
    by blast
  with ex pc tok st show ?thesis by simp
qed

lemma bstep_glob: "fst (snd (bstep th g)) = g"
  by (cases "pc th") (simp_all add: bstep_def)

lemma sys_step_bstep_epochs:
  assumes "sys_step bstep M c e = Some c'"
  shows "epochs (glob c') = epochs (glob c)"
proof (cases e)
  case Construct
  with assms show ?thesis
    by (auto simp: sys_step_def BasicEpochManager_def Let_def split: if_splits)
next
  case (Call p m)
  with assms show ?thesis by (auto simp: sys_step_def split: if_splits)
next
  case (Step p)
  from sys_step_Step_eq(2) [OF assms [unfolded Step]] bstep_glob [of "threads c ! p" "glob c"]
  show ?thesis by (simp split: prod.splits)
qed

lemma exec_bstep_epochs:
  "exec bstep M c es = Some c' \<Longrightarrow> epochs (glob c') = epochs (glob c)"
proof (induction es arbitrary: c)
  case Nil
  then show ?case by simp
next
  case (Cons e es)
  from Cons.prems obtain c1 where s: "sys_step bstep M c e = Some c1"
    and r: "exec bstep M c1 es = Some c'"
    by (auto split: option.splits)
  from Cons.IH [OF r] sys_step_bstep_epochs [OF s] show ?case by simp
qed

text \<open>
  C5, as stated for every variant: it fails for \<open>BasicEpochManager\<close>, whose \<open>onBegin\<close>,
  \<open>setEpoch\<close> and \<open>clearEpoch\<close> have empty bodies. After \<open>onBegin(5)\<close> the thread is in a
  live step begun at time 5 and its slot is still the idle sentinel.
\<close>

theorem basic_slot_idle_in_live_step_counterexample:
  "exec bstep 1 (init 1) [Construct, Call 0 (OnBegin 5), Step 0] = Some CXB \<and>
   is_Out (pc (threads CXB ! 0)) \<and> live (threads CXB ! 0) = Some 5 \<and>
   epochs (glob CXB) ! 0 = IDLE"
  by (simp add: CXB_def init_def new_Globals_def sys_step_def BasicEpochManager_def
      new_thread_def enter_def bstep_def)

text \<open>
  C5, amended. With \<open>IrrevocQuiesceEpochManager\<close>, in any interleaving, the slot of a
  thread that is outside the manager's methods holds the begin time of its live step, and
  the idle sentinel when it has none: the slot is idle if and only if the thread has no
  live step (or began it with time \<open>-1\<close>). From such a state \<open>setEpoch(t)\<close>, and \<open>onBegin(t)\<close>
  when the token is zero, leave \<open>t\<close> in the slot, and \<open>clearEpoch\<close> leaves the idle
  sentinel. With \<open>BasicEpochManager\<close> these methods do nothing and every slot stays idle.
\<close>

theorem slot_tracks_live_step:
  "(exec tstep M (init M) es = Some c \<longrightarrow> p < length (threads c) \<longrightarrow>
      is_Out (pc (threads c ! p)) \<longrightarrow>
      epochs (glob c) ! p = live_slot (threads c ! p) \<and>
      (epochs (glob c) ! p = IDLE \<longleftrightarrow>
         live (threads c ! p) = None \<or> live (threads c ! p) = Some IDLE) \<and>
      (\<not> dead c \<longrightarrow>
         (\<exists>c'. do_call tstep M 1 c (Call p (SetEpoch t)) = Some c' \<and>
               epochs (glob c') ! p = t \<and> live (threads c' ! p) = Some t) \<and>
         (\<exists>c'. do_call tstep M 1 c (Call p ClearEpoch) = Some c' \<and>
               epochs (glob c') ! p = IDLE \<and> live (threads c' ! p) = None) \<and>
         (token (glob c) = 0 \<longrightarrow>
            (\<exists>c'. do_call tstep M 2 c (Call p (OnBegin t)) = Some c' \<and>
                  epochs (glob c') ! p = t \<and> live (threads c' ! p) = Some t)))) \<and>
   (exec bstep M (init M) es = Some c \<longrightarrow> epochs (glob c) = replicate M IDLE)"
proof (intro conjI impI)
  assume ex: "exec tstep M (init M) es = Some c" and p: "p < length (threads c)"
    and out: "is_Out (pc (threads c ! p))"
  from slot_inv_exec [OF ex slot_inv_init] have inv: "slot_inv M c" .
  with p have tid: "tid (threads c ! p) = p" and inr: "p < length (epochs (glob c))"
    and ok: "slot_ok (epochs (glob c)) (threads c ! p)"
    by (simp_all add: slot_inv_def)
  from ok tid out show slot: "epochs (glob c) ! p = live_slot (threads c ! p)"
    by (cases "pc (threads c ! p)") (simp_all add: slot_ok_def)
  then show "epochs (glob c) ! p = IDLE \<longleftrightarrow>
         live (threads c ! p) = None \<or> live (threads c ! p) = Some IDLE"
    by (auto simp: live_slot_def split: option.splits)
  assume d: "\<not> dead c"
  from d p out tid inr
  show "\<exists>c'. do_call tstep M 1 c (Call p (SetEpoch t)) = Some c' \<and>
               epochs (glob c') ! p = t \<and> live (threads c' ! p) = Some t"
    by (simp add: do_call_def sys_step_def enter_def tstep_def store_epoch_def)
  from d p out tid inr
  show "\<exists>c'. do_call tstep M 1 c (Call p ClearEpoch) = Some c' \<and>
               epochs (glob c') ! p = IDLE \<and> live (threads c' ! p) = None"
    by (simp add: do_call_def sys_step_def enter_def tstep_def store_epoch_def)
  assume "token (glob c) = 0"
  with d p out tid inr
  show "\<exists>c'. do_call tstep M 2 c (Call p (OnBegin t)) = Some c' \<and>
                  epochs (glob c') ! p = t \<and> live (threads c' ! p) = Some t"
    by (simp add: do_call_def sys_step_def enter_def tstep_def store_epoch_def numeral_2_eq_2)
next
  assume "exec bstep M (init M) es = Some c"
  from exec_bstep_epochs [OF this] show "epochs (glob c) = replicate M IDLE"
    by (simp add: init_def new_Globals_def)
qed

theorem slot_tracks_live_step_witness:
  "exec tstep 1 (init 1) [Construct, Call 0 (OnBegin 5), Step 0, Step 0] = Some CW5 \<and>
   is_Out (pc (threads CW5 ! 0)) \<and> live (threads CW5 ! 0) = Some 5 \<and>
   epochs (glob CW5) ! 0 = 5 \<and> epochs (glob CW5) ! 0 \<noteq> IDLE \<and>
   (\<exists>c'. do_call tstep 1 1 CW5 (Call 0 ClearEpoch) = Some c' \<and>
         epochs (glob c') ! 0 = IDLE \<and> live (threads c' ! 0) = None) \<and>
   exec bstep 1 (init 1) [Construct, Call 0 (OnBegin 5), Step 0] = Some CXB \<and>
   epochs (glob CXB) = replicate 1 IDLE"
proof -
  have ex: "exec tstep 1 (init 1) [Construct, Call 0 (OnBegin 5), Step 0, Step 0] = Some CW5"
    by (simp add: CW5_def init_def new_Globals_def sys_step_def BasicEpochManager_def
        new_thread_def enter_def tstep_def store_epoch_def IDLE_def)
  have exb: "exec bstep 1 (init 1) [Construct, Call 0 (OnBegin 5), Step 0] = Some CXB"
    by (simp add: CXB_def init_def new_Globals_def sys_step_def BasicEpochManager_def
        new_thread_def enter_def bstep_def)
  have facts: "(0::nat) < length (threads CW5)" "is_Out (pc (threads CW5 ! 0))"
    "live (threads CW5 ! 0) = Some 5" "\<not> dead CW5"
    by (simp_all add: CW5_def)
  note a = slot_tracks_live_step [where M = 1 and c = CW5 and p = 0
      and es = "[Construct, Call 0 (OnBegin 5), Step 0, Step 0]" and t = 5]
  note b = slot_tracks_live_step [where M = 1 and c = CXB and p = 0
      and es = "[Construct, Call 0 (OnBegin 5), Step 0]" and t = 5]
  from a ex facts have s: "epochs (glob CW5) ! 0 = live_slot (threads CW5 ! 0)"
    and i: "epochs (glob CW5) ! 0 = IDLE \<longleftrightarrow>
         live (threads CW5 ! 0) = None \<or> live (threads CW5 ! 0) = Some IDLE"
    and cl: "\<exists>c'. do_call tstep 1 1 CW5 (Call 0 ClearEpoch) = Some c' \<and>
         epochs (glob c') ! 0 = IDLE \<and> live (threads c' ! 0) = None"
    by blast+
  from s facts have s5: "epochs (glob CW5) ! 0 = 5" by (simp add: live_slot_def)
  from i facts have ni: "epochs (glob CW5) ! 0 \<noteq> IDLE" by (simp add: IDLE_def)
  from b exb have "epochs (glob CXB) = replicate 1 IDLE" by blast
  with ex exb facts s5 ni cl show ?thesis by simp
qed

subsection \<open>Steps\<close>

text \<open>
  C7. \<open>unwind\<close> of a step that holds no orec (it has released every orec it acquired)
  leaves the orecs as they are; after \<open>unwind\<close> the step holds none, so a second \<open>unwind\<close>
  changes no orec, whatever the orecs have become in between.
\<close>

theorem unwind_twice_changes_nothing:
  "(e_locks (exo op) = [] \<longrightarrow> snd (WStep_unwind exo_unwind op os) = os) \<and>
   e_locks (exo (fst (WStep_unwind exo_unwind op os))) = [] \<and>
   WStep_unwind exo_unwind (fst (WStep_unwind exo_unwind op os)) os'
     = (fst (WStep_unwind exo_unwind op os), os')"
  by (simp add: WStep_unwind_def exo_unwind_def)

theorem unwind_twice_changes_nothing_witness:
  "e_locks (exo D1) = [] \<and> snd (WStep_unwind exo_unwind D1 OS1) = OS1 \<and>
   fst (WStep_unwind exo_unwind D0 OS0) = D1 \<and>
   snd (WStep_unwind exo_unwind D0 OS0) 4 = \<lparr>version = 2, owner = None\<rparr> \<and>
   WStep_unwind exo_unwind (fst (WStep_unwind exo_unwind D0 OS0)) OS1
     = (fst (WStep_unwind exo_unwind D0 OS0), OS1)"
proof -
  have l: "e_locks (exo D1) = []" by (simp add: D1_def)
  have f: "fst (WStep_unwind exo_unwind D0 OS0) = D1"
    by (simp add: WStep_unwind_def exo_unwind_def D0_def D1_def)
  have v: "snd (WStep_unwind exo_unwind D0 OS0) 4 = \<lparr>version = 2, owner = None\<rparr>"
    by (simp add: WStep_unwind_def exo_unwind_def D0_def OS0_def release_revert_def)
  from unwind_twice_changes_nothing [of D1 OS1] l
  have a: "snd (WStep_unwind exo_unwind D1 OS1) = OS1" by blast
  from unwind_twice_changes_nothing [of D0 OS0 OS1]
  have b: "WStep_unwind exo_unwind (fst (WStep_unwind exo_unwind D0 OS0)) OS1
     = (fst (WStep_unwind exo_unwind D0 OS0), OS1)" by blast
  from l f v a b show ?thesis by simp
qed



subsection \<open>get_leq\<close>

lemma below_ret_ok: "below L key obj \<Longrightarrow> ret_ok L key lt_mode obj"
  by (auto simp: below_def ret_ok_def)

lemma decide_ok:
  assumes "below L key (fst cur)" "\<forall>s \<in> set snaps. below L key (fst s)"
    and "\<not> AVOID_OREC_CHECKS L \<longrightarrow> cur \<in> set vs \<and> (nxt, v) \<in> set vs"
  shows "case decide L key lt_mode snaps cur n nxt v of (q, snaps') \<Rightarrow>
           gl_ok L key lt_mode \<lparr>g_pc = q, snapshots = snaps', validated = vs\<rparr>"
proof (cases "nxt = tail L")
  case True
  with assms show ?thesis
    by (simp add: decide_def gl_ok_def below_ret_ok)
next
  case nt: False
  show ?thesis
  proof (cases "key_of L nxt")
    case None
    with nt assms show ?thesis by (simp add: decide_def gl_ok_def)
  next
    case (Some k)
    show ?thesis
    proof (cases "if lt_mode then k \<ge> key else k > key")
      case True
      with nt Some assms show ?thesis
        by (simp add: decide_def gl_ok_def below_ret_ok)
    next
      case nb: False
      show ?thesis
      proof (cases "k = key")
        case True
        with nb have "\<not> lt_mode" by (auto split: if_splits)
        with True nb nt Some assms show ?thesis
          by (simp add: decide_def gl_ok_def ret_ok_def)
      next
        case False
        with nb have "k < key" by (auto split: if_splits)
        with nt Some have b: "below L key nxt" by (simp add: below_def)
        from False nb nt Some assms b show ?thesis
          by (simp add: decide_def gl_ok_def)
      qed
    qed
  qed
qed

lemma gl_ok_fields:
  "gl_ok L key lt_mode \<lparr>g_pc = q, snapshots = snaps, validated = vs\<rparr> \<Longrightarrow>
   g_pc st = q \<Longrightarrow> snapshots st = snaps \<Longrightarrow> validated st = vs \<Longrightarrow> gl_ok L key lt_mode st"
  by (auto simp: gl_ok_def split: gl_pc.splits)

lemma gl_step_ok:
  assumes ok: "gl_ok L key lt_mode st" and ht: "head L \<noteq> tail L"
  shows "gl_ok L key lt_mode (gl_step S L key lt_mode st h)"
proof -
  from ok have sn: "\<forall>s \<in> set (snapshots st). below L key (fst s)" by (simp add: gl_ok_def)
  have bh: "below L key (head L)" using ht by (simp add: below_def)
  show ?thesis
  proof (cases "g_pc st")
    case GL_begin
    show ?thesis
    proof (cases "snapshots st")
      case Nil
      with GL_begin sn show ?thesis by (simp add: gl_step_def gl_ok_def)
    next
      case (Cons s ss)
      with sn have "below L key (fst s)" by simp
      with GL_begin Cons sn show ?thesis by (simp add: gl_step_def gl_ok_def)
    qed
  next
    case GL_check_head
    with sn bh show ?thesis by (simp add: gl_step_def gl_ok_def Let_def)
  next
    case (GL_check_snap c)
    from sn have "\<forall>s \<in> set (tl (snapshots st)). below L key (fst s)"
      by (cases "snapshots st") simp_all
    with GL_check_snap ok sn show ?thesis by (simp add: gl_step_def gl_ok_def)
  next
    case (GL_read_next c n)
    show ?thesis
    proof (cases "AVOID_OREC_CHECKS L")
      case False
      with GL_read_next ok show ?thesis by (simp add: gl_step_def gl_ok_def Let_def)
    next
      case True
      from GL_read_next ok have b: "below L key (fst c)" by (simp add: gl_ok_def)
      from decide_ok [OF b sn, of "validated st" "next_get S h (fst c)" 0 lt_mode n] True
      show ?thesis using GL_read_next
        by (auto simp: gl_step_def Let_def split: prod.splits intro: gl_ok_fields)
    qed
  next
    case (GL_check_next c n nxt)
    from GL_check_next ok have b: "below L key (fst c)" and cv: "c \<in> set (validated st)"
      by (simp_all add: gl_ok_def)
    show ?thesis
    proof (cases "check_orec S h nxt = STMCAS_END_OF_TIME S")
      case True
      with GL_check_next sn show ?thesis by (simp add: gl_step_def gl_ok_def)
    next
      case False
      from decide_ok [OF b sn, of "(nxt, check_orec S h nxt) # validated st" nxt
          "check_orec S h nxt" lt_mode n] cv False
      show ?thesis using GL_check_next
        by (auto simp: gl_step_def Let_def split: prod.splits intro: gl_ok_fields)
    qed
  next
    case (GL_recheck_curr obj)
    with ok sn show ?thesis by (simp add: gl_step_def gl_ok_def Let_def below_ret_ok)
  next
    case (GL_recheck_next nxt)
    with ok sn show ?thesis by (simp add: gl_step_def gl_ok_def Let_def ret_ok_def)
  next
    case (GL_snap_check c nxt)
    with ok sn show ?thesis by (simp add: gl_step_def gl_ok_def Let_def)
  next
    case (GL_return r)
    with ok show ?thesis by (simp add: gl_step_def)
  next
    case GL_fault
    with ok show ?thesis by (simp add: gl_step_def)
  qed
qed

lemma gl_run_ok:
  "gl_ok L key lt_mode st \<Longrightarrow> head L \<noteq> tail L \<Longrightarrow> gl_ok L key lt_mode (gl_run S L key lt_mode st hs)"
  by (induction hs arbitrary: st) (simp_all add: gl_step_ok)

lemma checked_mono: "checked S H r \<Longrightarrow> H \<subseteq> H' \<Longrightarrow> checked S H' r"
  by (auto simp: checked_def)

lemma gl_step_checked:
  assumes "\<forall>r \<in> set (validated st). checked S H r"
  shows "\<forall>r \<in> set (validated (gl_step S L key lt_mode st h)). checked S (insert h H) r"
proof -
  from assms have old: "\<forall>r \<in> set (validated st). checked S (insert h H) r"
    by (auto intro: checked_mono)
  have new: "checked S (insert h H) (obj, check_orec S h obj)"
    if "check_orec S h obj \<noteq> STMCAS_END_OF_TIME S" for obj
    using that by (auto simp: checked_def)
  have cont: "checked S (insert h H) c" if "check_continuation S h (fst c) (snd c)" for c
    using that by (auto simp: checked_def)
  show ?thesis
  proof (cases "g_pc st")
    case (GL_read_next c n)
    with old show ?thesis by (auto simp: gl_step_def Let_def split: prod.splits)
  next
    case (GL_check_next c n nxt)
    with old new [of nxt] show ?thesis by (auto simp: gl_step_def Let_def split: prod.splits)
  next
    case (GL_check_snap c)
    with old cont [of c] show ?thesis by (auto simp: gl_step_def)
  qed (use old new in \<open>auto simp: gl_step_def Let_def\<close>)
qed

lemma gl_run_checked:
  "\<forall>r \<in> set (validated st). checked S H r \<Longrightarrow>
   \<forall>r \<in> set (validated (gl_run S L key lt_mode st hs)). checked S (H \<union> set hs) r"
proof (induction hs arbitrary: st H)
  case Nil
  then show ?case by simp
next
  case (Cons h hs)
  from Cons.IH [OF gl_step_checked [OF Cons.prems, of L key lt_mode h]]
  show ?case by simp
qed

lemma gl_start_ok:
  "\<forall>s \<in> set snaps. below L key (fst s) \<Longrightarrow> gl_ok L key lt_mode (gl_start snaps)"
  by (simp add: gl_ok_def gl_start_def)

text \<open>
  C9. Whatever the other threads do to the shared memory between its accesses, with or
  without \<open>AVOID_OREC_CHECKS\<close> and in both modes, a \<open>get_leq\<close> that returns \<open>(obj, ver)\<close>
  returns a node other than the tail, which is the head or a data node with a key at most
  \<open>key\<close> (less than \<open>key\<close> in \<open>lt_mode\<close>), and the pair is one for which \<open>check_orec\<close> or
  \<open>check_continuation\<close> succeeded in the read-step that returned it. The snapshot stack
  holds, as its callers see to, only the head and data nodes with smaller keys.
\<close>

theorem get_leq_returns_validated_predecessor:
  assumes "head L \<noteq> tail L" and "\<forall>s \<in> set snaps. below L key (fst s)"
    and "g_pc (gl_run S L key lt_mode (gl_start snaps) hs) = GL_return (obj, ver)"
  shows "obj \<noteq> tail L \<and>
         (obj = head L \<or> (\<exists>k. key_of L obj = Some k \<and> (if lt_mode then k < key else k \<le> key))) \<and>
         (obj, ver) \<in> set (validated (gl_run S L key lt_mode (gl_start snaps) hs)) \<and>
         (\<exists>h \<in> set hs. (check_orec S h obj = ver \<and> ver \<noteq> STMCAS_END_OF_TIME S) \<or>
                        check_continuation S h obj ver)"
proof -
  let ?st = "gl_run S L key lt_mode (gl_start snaps) hs"
  from gl_run_ok [OF gl_start_ok [OF assms(2)] assms(1)] have "gl_ok L key lt_mode ?st" .
  with assms(3) have r: "ret_ok L key lt_mode obj" and v: "(obj, ver) \<in> set (validated ?st)"
    by (simp_all add: gl_ok_def)
  have "\<forall>r \<in> set (validated (gl_start snaps)). checked S {} r" by (simp add: gl_start_def)
  from gl_run_checked [OF this, of L key lt_mode hs] v have "checked S (set hs) (obj, ver)"
    by auto
  with r v show ?thesis by (simp add: ret_ok_def checked_def)
qed

theorem get_leq_returns_validated_predecessor_witness:
  "head (L0 False) \<noteq> tail (L0 False) \<and> below (L0 True) 20 3 \<and>
   g_pc (gl_run S0 (L0 False) 20 False (gl_start []) [(), (), (), (), (), ()]) = GL_return (4, 4) \<and>
   key_of (L0 False) 4 = Some 20 \<and>
   (4, 4) \<in> set (validated (gl_run S0 (L0 False) 20 False (gl_start []) [(), (), (), (), (), ()])) \<and>
   g_pc (gl_run S0 (L0 True) 20 True (gl_start [(3, 4)]) [(), (), (), ()]) = GL_return (3, 4) \<and>
   (3, 4) \<in> set (validated (gl_run S0 (L0 True) 20 True (gl_start [(3, 4)]) [(), (), (), ()]))"
proof -
  have ht: "head (L0 a) \<noteq> tail (L0 a)" for a by (simp add: L0_def)
  have b: "below (L0 True) 20 3" by (simp add: below_def L0_def)
  have r1: "g_pc (gl_run S0 (L0 False) 20 False (gl_start []) [(), (), (), (), (), ()]) = GL_return (4, 4)"
    by (simp add: gl_start_def gl_step_def decide_def S0_def L0_def Let_def)
  have r2: "g_pc (gl_run S0 (L0 True) 20 True (gl_start [(3, 4)]) [(), (), (), ()]) = GL_return (3, 4)"
    by (simp add: gl_start_def gl_step_def decide_def S0_def L0_def Let_def)
  have "\<forall>s \<in> set []. below (L0 False) (20::nat) (fst s)" by simp
  from get_leq_returns_validated_predecessor [OF ht this r1]
  have v1: "(4, 4) \<in> set (validated (gl_run S0 (L0 False) 20 False (gl_start []) [(), (), (), (), (), ()]))"
    by blast
  have "\<forall>s \<in> set [(3, 4)]. below (L0 True) (20::nat) (fst s)" using b by simp
  from get_leq_returns_validated_predecessor [OF ht this r2]
  have v2: "(3, 4) \<in> set (validated (gl_run S0 (L0 True) 20 True (gl_start [(3, 4)]) [(), (), (), ()]))"
    by blast
  have k: "key_of (L0 False) 4 = Some 20" by (simp add: L0_def)
  from ht b r1 r2 v1 v2 k show ?thesis by simp
qed

subsection \<open>insert: the traversal on a list that nobody changes\<close>




lemma list_on_simps [simp]:
  "head (list_on L h) = head L" "tail (list_on L h) = tail L"
  "SNAPSHOT_FREQUENCY (list_on L h) = SNAPSHOT_FREQUENCY L"
  "AVOID_OREC_CHECKS (list_on L h) = AVOID_OREC_CHECKS L"
  by (simp_all add: list_on_def)

lemma stm_ops_simps [simp]:
  "next_get stm_ops h a = nexts h a" "STMCAS_END_OF_TIME stm_ops = END_OF_TIME"
  by (simp_all add: stm_ops_def)





































end
